theory Spec2Isabelle
  imports Main "HOL-Library.Sublist" "HOL-Library.Multiset"
begin

section \<open>Python string operations used by DocFlow\<close>

text \<open>
  The document tools call four operations of Python's \<^verbatim>\<open>str\<close>: \<^verbatim>\<open>s.find(sub, start)\<close>,
  \<^verbatim>\<open>sub in s\<close>, slicing and \<^verbatim>\<open>s.replace(old, new)\<close>. They are library code, modelled here
  from their documented behaviour. A text is a \<open>string\<close>; one \<open>char\<close> of the model stands
  for one character of the Python string, so \<open>length\<close> is Python's \<^verbatim>\<open>len\<close>.
\<close>

text \<open>
  \<^verbatim>\<open>s.find(sub, start)\<close> for \<open>0 \<le> start\<close>: the lowest index \<open>i \<ge> start\<close> at which \<open>sub\<close> begins
  in \<open>s\<close>, and \<open>-1\<close> when there is none. The empty \<open>sub\<close> is found at every index up to
  \<open>len(s)\<close> and nowhere beyond.
\<close>

function py_find :: "string \<Rightarrow> string \<Rightarrow> nat \<Rightarrow> int" where
  "py_find s sub start =
     (if length s < start then - 1
      else if prefix sub (drop start s) then int start
      else py_find s sub (Suc start))"
  by pat_completeness auto
termination
  by (relation "measure (\<lambda>(s, sub, start). Suc (length s) - start)") auto

declare py_find.simps [simp del]

text \<open>\<^verbatim>\<open>sub in s\<close>: substring containment.\<close>

definition py_in :: "string \<Rightarrow> string \<Rightarrow> bool" where
  "py_in sub s \<longleftrightarrow> py_find s sub 0 \<noteq> - 1"

text \<open>\<^verbatim>\<open>s[i:j]\<close> for indices \<open>0 \<le> i\<close>, \<open>0 \<le> j\<close> (empty when \<open>j \<le> i\<close>, clipped at the end).\<close>

definition slice :: "string \<Rightarrow> nat \<Rightarrow> nat \<Rightarrow> string" where
  "slice s i j = take (j - i) (drop i s)"

text \<open>
  \<^verbatim>\<open>s.replace(old, new)\<close>: every occurrence of \<open>old\<close> found scanning from the left, without
  overlaps, becomes \<open>new\<close>. With the empty \<open>old\<close>, \<open>new\<close> is put before every character and
  at the end.
\<close>

function py_replace :: "string \<Rightarrow> string \<Rightarrow> string \<Rightarrow> string" where
  "py_replace s old new =
     (if old = [] then new @ concat (map (\<lambda>c. c # new) s)
      else if s = [] then []
      else if prefix old s then new @ py_replace (drop (length old) s) old new
      else hd s # py_replace (tl s) old new)"
  by pat_completeness auto
termination
  by (relation "measure (\<lambda>(s, old, new). length s)") auto

declare py_replace.simps [simp del]

section \<open>The occurrence scan of \<^verbatim>\<open>deep_replace_text_in_paragraph\<close>\<close>

text \<open>
  \<^verbatim>\<open>
  parts = []
  start = 0
  while True:
      idx = run.text.find(old_text, start)
      if idx == -1:
          parts.append(run.text[start:])
          break
      parts.append(run.text[start:idx])
      parts.append(new_text)
      start = idx + len(old_text)
  \<close>
  The loop has no bound of its own, so it is a partial function: \<open>None\<close> is the run that
  never leaves the loop. \<open>t\<close> is \<^verbatim>\<open>run.text\<close>, which the loop does not change.
\<close>

partial_function (option) split_loop ::
  "string \<Rightarrow> string \<Rightarrow> string \<Rightarrow> nat \<Rightarrow> string list \<Rightarrow> string list option" where
  "split_loop t old_text new_text start parts =
     (let idx = py_find t old_text start in
      if idx = - 1 then Some (parts @ [drop start t])
      else split_loop t old_text new_text (nat idx + length old_text)
             (parts @ [slice t start (nat idx), new_text]))"

declare split_loop.simps [code]

section \<open>Runs and paragraphs\<close>

text \<open>
  A run is a span of text with one character format. The fields are the ones the tools
  read or write: \<^verbatim>\<open>run.text\<close>, \<^verbatim>\<open>run.bold\<close>, \<^verbatim>\<open>run.italic\<close>, \<^verbatim>\<open>run.underline\<close>,
  \<^verbatim>\<open>run.font.name\<close>, \<^verbatim>\<open>run.font.size\<close> and \<^verbatim>\<open>run.style\<close>. \<open>None\<close> is the library's
  "not set here, inherited" (for \<open>style\<close>: the default character style). A font size is
  a length in English Metric Units, as the library stores it. The text of a run is taken
  to be read back as it was written.
\<close>

datatype underline_value = Underline_True | Underline_False | Underline_Kind nat

record run =
  rtext :: string
  bold :: "bool option"
  italic :: "bool option"
  underline :: "underline_value option"
  font_name :: "string option"
  font_size :: "int option"
  style :: "string option"

text \<open>
  A paragraph is the sequence of its runs, in document order (\<^verbatim>\<open>paragraph.runs\<close>); children
  of the paragraph element that are not runs are left out of the model. \<^verbatim>\<open>paragraph.text\<close>
  is the concatenation of the run texts.
\<close>

type_synonym docx_paragraph = "run list"

definition paragraph_text :: "docx_paragraph \<Rightarrow> string" where
  "paragraph_text p = concat (map rtext p)"

text \<open>The six format attributes of a run, as one value.\<close>

definition run_format ::
  "run \<Rightarrow> bool option \<times> bool option \<times> underline_value option \<times> string option \<times> int option \<times> string option" where
  "run_format r = (bold r, italic r, underline r, font_name r, font_size r, style r)"

text \<open>
  \<^verbatim>\<open>paragraph.add_run(text)\<close> appends a new run, with no format attribute set, at the end of
  the paragraph, and gives it the text (an empty text still makes a run). The new run is
  the last element; the result models the paragraph afterwards.
\<close>

definition new_run :: "string \<Rightarrow> run" where
  "new_run seg = \<lparr>rtext = seg, bold = None, italic = None, underline = None,
                  font_name = None, font_size = None, style = None\<rparr>"

definition add_run :: "docx_paragraph \<Rightarrow> string \<Rightarrow> docx_paragraph" where
  "add_run p seg = p @ [new_run seg]"

text \<open>
  \<^verbatim>\<open>
  new_run.bold = run.bold
  new_run.italic = run.italic
  new_run.underline = run.underline
  new_run.font.name = run.font.name
  new_run.font.size = run.font.size
  new_run.style = run.style
  \<close>
  Runs are objects; the model names a run by its position in the paragraph. \<open>src\<close> is the
  position of \<^verbatim>\<open>run\<close> and \<open>dst\<close> the position of \<^verbatim>\<open>new_run\<close>.
\<close>

definition copy_format :: "nat \<Rightarrow> nat \<Rightarrow> docx_paragraph \<Rightarrow> docx_paragraph" where
  "copy_format src dst p =
     p[dst := (p ! dst)\<lparr>bold := bold (p ! src), italic := italic (p ! src),
                        underline := underline (p ! src), font_name := font_name (p ! src),
                        font_size := font_size (p ! src), style := style (p ! src)\<rparr>]"

text \<open>
  \<^verbatim>\<open>parent.insert(run_index, new_run._element)\<close>: the element is already the last child (it
  was appended by \<^verbatim>\<open>add_run\<close>), so the insertion moves it in front of the child now at
  \<open>run_index\<close>; when that child is the element itself, or there is none, it stays last.
\<close>

definition parent_insert :: "nat \<Rightarrow> docx_paragraph \<Rightarrow> docx_paragraph" where
  "parent_insert run_index p =
     (if run_index < length p - 1
      then take run_index p @ [last p] @ drop run_index (butlast p)
      else p)"

text \<open>
  An insertion in front of position \<open>i\<close> moves every run at position \<open>i\<close> or later one place
  down. The runs still to be visited by the outer loop are kept as positions, so they move
  with it.
\<close>

definition shift_from :: "nat \<Rightarrow> nat list \<Rightarrow> nat list" where
  "shift_from i ps = map (\<lambda>q. if i \<le> q then Suc q else q) ps"

text \<open>
  \<^verbatim>\<open>
  for seg in parts[1:]:
      new_run = paragraph.add_run(seg)
      (the six assignments above)
      run_index += 1
      parent.insert(run_index, new_run._element)
  \<close>
  \<open>src\<close> is the position of \<^verbatim>\<open>run\<close>; the state is the paragraph and the positions of the
  runs the outer loop has not visited yet.
\<close>

fun add_segments ::
  "nat \<Rightarrow> string list \<Rightarrow> nat \<Rightarrow> docx_paragraph \<times> nat list \<Rightarrow> docx_paragraph \<times> nat list" where
  "add_segments src [] run_index (p, pending) = (p, pending)"
| "add_segments src (seg # segs) run_index (p, pending) =
     (let p1 = add_run p seg;
          p2 = copy_format src (length p1 - 1) p1;
          run_index' = run_index + 1;
          p3 = parent_insert run_index' p2
      in add_segments src segs run_index' (p3, shift_from run_index' pending))"

lemma add_segments_pending_length:
  "length (snd (add_segments src segs run_index (p, pending))) = length pending"
  by (induction segs arbitrary: run_index p pending) (simp_all add: Let_def shift_from_def)

text \<open>
  \<^verbatim>\<open>
  replaced_in_run = False
  for run in paragraph.runs:
      if old_text in run.text:
          (the scan, giving parts)
          run.text = parts[0]
          parent = run._element.getparent()
          run_index = list(parent).index(run._element)
          (the loop over parts[1:])
          replaced_in_run = True
  \<close>
  \<^verbatim>\<open>paragraph.runs\<close> is read once, before the loop: the runs inserted meanwhile are not
  visited. The first argument is the list of positions of the runs still to visit;
  \<open>None\<close> is a scan that never ends. The scan always leaves at least one part.
\<close>

function run_pass ::
  "nat list \<Rightarrow> string \<Rightarrow> string \<Rightarrow> docx_paragraph \<Rightarrow> bool \<Rightarrow> (docx_paragraph \<times> bool) option" where
  "run_pass [] old_text new_text p replaced_in_run = Some (p, replaced_in_run)"
| "run_pass (r # pending) old_text new_text p replaced_in_run =
     (if py_in old_text (rtext (p ! r)) then
        (case split_loop (rtext (p ! r)) old_text new_text 0 [] of
           None \<Rightarrow> None
         | Some [] \<Rightarrow> None
         | Some (first # rest) \<Rightarrow>
             (case add_segments r rest r (p[r := (p ! r)\<lparr>rtext := first\<rparr>], pending) of
                (p', pending') \<Rightarrow> run_pass pending' old_text new_text p' True))
      else run_pass pending old_text new_text p replaced_in_run)"
  by pat_completeness auto
termination
  by (relation "measure (\<lambda>(pending, old_text, new_text, p, b). length pending)")
    (auto dest!: arg_cong [where f = snd] simp: add_segments_pending_length)

text \<open>
  The whole of \<^verbatim>\<open>deep_replace_text_in_paragraph\<close>: the pass over the runs, then
  \<^verbatim>\<open>
  if not replaced_in_run and old_text in paragraph.text:
      full_text = paragraph.text
      new_full_text = full_text.replace(old_text, new_text)
      p_element = paragraph._element
      for run in list(paragraph.runs):
          p_element.remove(run._element)
      paragraph.add_run(new_full_text)
  \<close>
  The function has no \<^verbatim>\<open>return\<close> statement, so what it returns is Python's \<^verbatim>\<open>None\<close>. The
  model returns the paragraph as the call leaves it, and the returned value.
\<close>

datatype py_value = Py_None | Py_Bool bool

definition deep_replace_text_in_paragraph ::
  "docx_paragraph \<Rightarrow> string \<Rightarrow> string \<Rightarrow> (docx_paragraph \<times> py_value) option" where
  "deep_replace_text_in_paragraph p old_text new_text =
     (case run_pass [0..<length p] old_text new_text p False of
        None \<Rightarrow> None
      | Some (p1, replaced_in_run) \<Rightarrow>
          if \<not> replaced_in_run \<and> py_in old_text (paragraph_text p1) then
            (let full_text = paragraph_text p1;
                 new_full_text = py_replace full_text old_text new_text;
                 p2 = filter (\<lambda>r. False) p1
             in Some (add_run p2 new_full_text, Py_None))
          else Some (p1, Py_None))"

section \<open>Documents\<close>

text \<open>
  A document, as the tools walk it: \<^verbatim>\<open>doc.paragraphs\<close> (the paragraphs of the body),
  \<^verbatim>\<open>doc.tables\<close> (each table a list of rows, \<^verbatim>\<open>table.rows\<close>; each row a list of cells,
  \<^verbatim>\<open>row.cells\<close>; each cell a list of paragraphs, \<^verbatim>\<open>cell.paragraphs\<close>) and \<^verbatim>\<open>doc.sections\<close>
  (each with the paragraphs of its footer, \<^verbatim>\<open>section.footer.paragraphs\<close>).
\<close>

type_synonym cell = "docx_paragraph list"

record docx_table =
  rows :: "cell list list"

record docx_section =
  footer :: "docx_paragraph list"

record document =
  paragraphs :: "docx_paragraph list"
  tables :: "docx_table list"
  sections :: "docx_section list"

section \<open>The font pass of \<^verbatim>\<open>change_font_in_docx\<close>\<close>

text \<open>\<^verbatim>\<open>Pt(n)\<close>: \<open>n\<close> points as a length; one point is 12700 English Metric Units.\<close>

definition Pt :: "int \<Rightarrow> int" where
  "Pt n = n * 12700"

text \<open>
  \<^verbatim>\<open>
  for run in paragraph.runs:
      run.font.name = "Calibri"
      run.font.size = Pt(points)
  \<close>
  is the body of each of the three loops, with \<open>points\<close> 12, 12 and 8.
\<close>

definition set_font :: "int \<Rightarrow> run \<Rightarrow> run" where
  "set_font points r = r\<lparr>font_name := Some ''Calibri'', font_size := Some (Pt points)\<rparr>"

definition set_font_paragraphs :: "int \<Rightarrow> docx_paragraph list \<Rightarrow> docx_paragraph list" where
  "set_font_paragraphs points ps = map (map (set_font points)) ps"

text \<open>
  \<^verbatim>\<open>
  for paragraph in doc.paragraphs: ...                 (size 12)
  for table in doc.tables:
      for row in table.rows:
          for cell in row.cells:
              for paragraph in cell.paragraphs: ...     (size 12)
  for section in doc.sections:
      footer = section.footer
      for paragraph in footer.paragraphs: ...           (size 8)
  \<close>
  The pass between loading the file and saving it.
\<close>

definition change_font :: "document \<Rightarrow> document" where
  "change_font doc =
     doc\<lparr>paragraphs := set_font_paragraphs 12 (paragraphs doc),
         tables := map (\<lambda>t. t\<lparr>rows := map (map (set_font_paragraphs 12)) (rows t)\<rparr>) (tables doc),
         sections := map (\<lambda>s. s\<lparr>footer := set_font_paragraphs 8 (footer s)\<rparr>) (sections doc)\<rparr>"

text \<open>What the font pass does not write: the text and the other format attributes.\<close>

definition other_attributes ::
  "run \<Rightarrow> string \<times> bool option \<times> bool option \<times> underline_value option \<times> string option" where
  "other_attributes r = (rtext r, bold r, italic r, underline r, style r)"

section \<open>File names\<close>

text \<open>
  \<^verbatim>\<open>
  new_filename = file_path.name
  for old_text, new_text in replacements:
      new_filename = new_filename.replace(old_text, new_text)
  \<close>
  in \<^verbatim>\<open>process_word_file\<close>.
\<close>

fun new_filename :: "string \<Rightarrow> (string \<times> string) list \<Rightarrow> string" where
  "new_filename file_name [] = file_name"
| "new_filename file_name ((old_text, new_text) # replacements) =
     new_filename (py_replace file_name old_text new_text) replacements"

text \<open>
  \<^verbatim>\<open>
  def process_file_name(file_name, replacement_pairs):
      for old_text, new_text in replacement_pairs:
          if old_text in file_name:
              file_name = file_name.replace(old_text, new_text)
      return file_name
  \<close>
\<close>

fun process_file_name :: "string \<Rightarrow> (string \<times> string) list \<Rightarrow> string" where
  "process_file_name file_name [] = file_name"
| "process_file_name file_name ((old_text, new_text) # replacement_pairs) =
     (if py_in old_text file_name
      then process_file_name (py_replace file_name old_text new_text) replacement_pairs
      else process_file_name file_name replacement_pairs)"

text \<open>
  The rules applied one after the other, in the order of the list, each to the result of
  the one before: the derivation of the file name in the words of the specification.
\<close>

definition rules_in_order :: "string \<Rightarrow> (string \<times> string) list \<Rightarrow> string" where
  "rules_in_order file_name rules = foldl (\<lambda>s (old, new). py_replace s old new) file_name rules"

section \<open>One file, and the batch\<close>

text \<open>
  \<^verbatim>\<open>
  for paragraph in doc.paragraphs:
      for old_text, new_text in replacements:
          if old_text in paragraph.text:
              deep_replace_text_in_paragraph(paragraph, old_text, new_text)
  \<close>
  \<open>None\<close> is a call that never returns.
\<close>

fun replace_in_paragraph :: "(string \<times> string) list \<Rightarrow> docx_paragraph \<Rightarrow> docx_paragraph option" where
  "replace_in_paragraph [] p = Some p"
| "replace_in_paragraph ((old_text, new_text) # replacements) p =
     (if py_in old_text (paragraph_text p) then
        (case deep_replace_text_in_paragraph p old_text new_text of
           None \<Rightarrow> None
         | Some (p', v) \<Rightarrow> replace_in_paragraph replacements p')
      else replace_in_paragraph replacements p)"

text \<open>
  An exception carries its message. The lines the two functions log are values; \<open>'p\<close> is
  the type of paths.
\<close>

datatype py_exception = Exception string

datatype 'p log_line =
    Info_No_Files
  | Info_Found nat
  | Info_Created 'p
  | Error_Processing_File 'p py_exception
  | Info_Processed nat nat string
  | Error_Processing_Name string py_exception
  | Info_Complete nat nat

text \<open>
  What the functions call and do not define: \<open>load\<close> gives the document of a file or the
  exception \<^verbatim>\<open>Document(file_path)\<close> raises; \<open>save\<close> gives the exception \<^verbatim>\<open>doc.save\<close> raises,
  if any; \<open>mutation_error\<close> gives the exception the document library raises while the
  rules are applied to a paragraph, if any; \<open>name_of\<close> is \<^verbatim>\<open>file_path.name\<close>; \<open>path_join\<close> is
  \<^verbatim>\<open>destination_folder / new_filename\<close>; \<open>pool_error\<close> gives the exception
  \<^verbatim>\<open>future.result()\<close> raises when the pool could not run the call for a file, if any.
\<close>

record 'p environment =
  load :: "'p \<Rightarrow> py_exception + document"
  save :: "'p \<Rightarrow> document \<Rightarrow> py_exception option"
  mutation_error :: "(string \<times> string) list \<Rightarrow> docx_paragraph \<Rightarrow> py_exception option"
  name_of :: "'p \<Rightarrow> string"
  path_join :: "'p \<Rightarrow> string \<Rightarrow> 'p"
  pool_error :: "'p \<Rightarrow> py_exception option"

text \<open>
  The loop over \<^verbatim>\<open>doc.paragraphs\<close>, inside the \<^verbatim>\<open>try\<close> of \<^verbatim>\<open>process_word_file\<close>: an exception
  raised at a paragraph ends the loop and is the result (\<open>Inl\<close>); \<open>None\<close> is a call that
  never returns.
\<close>

fun replace_in_paragraphs ::
  "((string \<times> string) list \<Rightarrow> docx_paragraph \<Rightarrow> py_exception option) \<Rightarrow>
   (string \<times> string) list \<Rightarrow> docx_paragraph list \<Rightarrow>
   (py_exception + docx_paragraph list) option" where
  "replace_in_paragraphs raises replacements [] = Some (Inr [])"
| "replace_in_paragraphs raises replacements (p # ps) =
     (case raises replacements p of
        Some e \<Rightarrow> Some (Inl e)
      | None \<Rightarrow>
          (case replace_in_paragraph replacements p of
             None \<Rightarrow> None
           | Some p' \<Rightarrow>
               (case replace_in_paragraphs raises replacements ps of
                  None \<Rightarrow> None
                | Some (Inl e) \<Rightarrow> Some (Inl e)
                | Some (Inr ps') \<Rightarrow> Some (Inr (p' # ps')))))"

text \<open>
  \<^verbatim>\<open>
  try:
      doc = Document(file_path)
      (the loop over doc.paragraphs)
      (new_filename)
      new_file_path = destination_folder / new_filename
      doc.save(new_file_path)
      logging.info(f"Created new file: {new_file_path}")
  except Exception as e:
      logging.error(f"Error processing {file_path}: {e}")
  \<close>
  Every exception raised between \<^verbatim>\<open>try\<close> and \<^verbatim>\<open>except\<close> (while loading, while the
  paragraphs are rewritten, while saving) ends in the error line, and the function
  returns. The result is the line logged and the file written, if one was.
\<close>

definition process_word_file ::
  "'p environment \<Rightarrow> 'p \<Rightarrow> (string \<times> string) list \<Rightarrow> 'p \<Rightarrow>
   ('p log_line \<times> ('p \<times> document) option) option" where
  "process_word_file env file_path replacements destination_folder =
     (case load env file_path of
        Inl e \<Rightarrow> Some (Error_Processing_File file_path e, None)
      | Inr doc \<Rightarrow>
          (case replace_in_paragraphs (mutation_error env) replacements (paragraphs doc) of
             None \<Rightarrow> None
           | Some (Inl e) \<Rightarrow> Some (Error_Processing_File file_path e, None)
           | Some (Inr ps) \<Rightarrow>
               (let doc' = doc\<lparr>paragraphs := ps\<rparr>;
                    new_file_path = path_join env destination_folder
                                      (new_filename (name_of env file_path) replacements)
                in case save env new_file_path doc' of
                     Some e \<Rightarrow> Some (Error_Processing_File file_path e, None)
                   | None \<Rightarrow> Some (Info_Created new_file_path, Some (new_file_path, doc')))))"

text \<open>
  \<^verbatim>\<open>
  completed = 0
  for future in as_completed(future_to_file):
      completed += 1
      file = future_to_file[future]
      try:
          future.result()
          files_processed += 1
          logging.info(f"Processed {completed}/{total_files}: {file.name}")
      except Exception as e:
          logging.error(f"Error processing {file.name}: {e}")
  \<close>
  The list is the files in the order in which their calls complete. \<^verbatim>\<open>future.result()\<close>
  raises what the call raised, and \<^verbatim>\<open>process_word_file\<close> raises nothing; it also raises
  when the pool could not run the call at all, which \<open>pool_error\<close> stands for (no file is
  written then). The state is the counter \<^verbatim>\<open>files_processed\<close>, the log and the files
  written.
\<close>

fun completed_loop ::
  "'p environment \<Rightarrow> (string \<times> string) list \<Rightarrow> 'p \<Rightarrow> nat \<Rightarrow> 'p list \<Rightarrow> nat \<Rightarrow>
   nat \<times> 'p log_line list \<times> ('p \<times> document) list \<Rightarrow>
   (nat \<times> 'p log_line list \<times> ('p \<times> document) list) option" where
  "completed_loop env replacements destination_folder total_files [] completed st = Some st"
| "completed_loop env replacements destination_folder total_files (file # rest) completed
     (files_processed, log, written) =
     (let completed' = completed + 1 in
      case pool_error env file of
        Some e \<Rightarrow>
          completed_loop env replacements destination_folder total_files rest completed'
            (files_processed, log @ [Error_Processing_Name (name_of env file) e], written)
      | None \<Rightarrow>
          (case process_word_file env file replacements destination_folder of
             None \<Rightarrow> None
           | Some (line, w) \<Rightarrow>
               completed_loop env replacements destination_folder total_files rest completed'
                 (files_processed + 1,
                  log @ [line, Info_Processed completed' total_files (name_of env file)],
                  written @ (case w of None \<Rightarrow> [] | Some x \<Rightarrow> [x]))))"

text \<open>
  \<^verbatim>\<open>
  total_files = len(files)
  if total_files == 0:
      logging.info("No DOCX files found in the origin folder.")
      return
  logging.info(f"Found {total_files} DOCX files to process.")
  destination_folder.mkdir(parents=True, exist_ok=True)
  files_processed = 0
  (the pool and the loop over the completed calls)
  logging.info(f"Processing complete! Total files processed: {files_processed}/{total_files}")
  \<close>
  \<open>files\<close> is what the search of the origin folder found, \<open>completion\<close> the same files in
  the order in which their calls complete. Making the destination folder is taken to
  succeed.
\<close>

definition process_directory ::
  "'p environment \<Rightarrow> 'p list \<Rightarrow> 'p list \<Rightarrow> 'p \<Rightarrow> (string \<times> string) list \<Rightarrow>
   ('p log_line list \<times> ('p \<times> document) list) option" where
  "process_directory env files completion destination_folder replacements =
     (let total_files = length files in
      if total_files = 0 then Some ([Info_No_Files], [])
      else
        (case completed_loop env replacements destination_folder total_files
                completion 0 (0, [Info_Found total_files], []) of
           None \<Rightarrow> None
         | Some (files_processed, log, written) \<Rightarrow>
             Some (log @ [Info_Complete files_processed total_files], written)))"

section \<open>Two notions the statements use\<close>

text \<open>
  \<open>interleave ls x\<close> is the list \<open>ls\<close> with \<open>x\<close> put between each two of its elements: the
  shape of the parts the scan collects, literal segments with the new text between them.
\<close>

fun interleave :: "'a list \<Rightarrow> 'a \<Rightarrow> 'a list" where
  "interleave [] x = []"
| "interleave [l] x = [l]"
| "interleave (l # l' # ls) x = l # x # interleave (l' # ls) x"

text \<open>
  \<open>no_straddle old_text ts\<close>: in the concatenation of the texts \<open>ts\<close>, no occurrence of
  \<open>old_text\<close> begins in one text and ends in a later one.
\<close>

fun no_straddle :: "string \<Rightarrow> string list \<Rightarrow> bool" where
  "no_straddle old_text [] = True"
| "no_straddle old_text (t # ts) =
     ((\<forall>j \<in> set [0..<length t].
         prefix old_text (drop j (t @ concat ts)) \<longrightarrow> j + length old_text \<le> length t)
      \<and> no_straddle old_text ts)"

section \<open>Facts about the string operations\<close>

lemma py_find_spec:
  "(py_find s sub start = - 1 \<and> (\<forall>j. start \<le> j \<and> j \<le> length s \<longrightarrow> \<not> prefix sub (drop j s)))
   \<or> (\<exists>i. py_find s sub start = int i \<and> start \<le> i \<and> i \<le> length s \<and> prefix sub (drop i s)
          \<and> (\<forall>j. start \<le> j \<and> j < i \<longrightarrow> \<not> prefix sub (drop j s)))"
proof (induction s sub start rule: py_find.induct)
  case (1 s sub start)
  show ?case
  proof (cases "length s < start")
    case True
    then have "py_find s sub start = - 1"
      by (subst py_find.simps) simp
    moreover from True have "\<forall>j. start \<le> j \<and> j \<le> length s \<longrightarrow> \<not> prefix sub (drop j s)"
      by auto
    ultimately show ?thesis by blast
  next
    case False
    note in_range = this
    show ?thesis
    proof (cases "prefix sub (drop start s)")
      case True
      with in_range have "py_find s sub start = int start"
        by (subst py_find.simps) simp
      with True in_range show ?thesis by auto
    next
      case False
      with in_range have eq: "py_find s sub start = py_find s sub (Suc start)"
        by (subst py_find.simps) simp
      from "1.IH" [OF in_range False] show ?thesis
      proof
        assume h: "py_find s sub (Suc start) = - 1
          \<and> (\<forall>j. Suc start \<le> j \<and> j \<le> length s \<longrightarrow> \<not> prefix sub (drop j s))"
        have "\<forall>j. start \<le> j \<and> j \<le> length s \<longrightarrow> \<not> prefix sub (drop j s)"
        proof (intro allI impI)
          fix j assume "start \<le> j \<and> j \<le> length s"
          then show "\<not> prefix sub (drop j s)"
            using h False by (cases "j = start") auto
        qed
        with h eq show ?thesis by simp
      next
        assume "\<exists>i. py_find s sub (Suc start) = int i \<and> Suc start \<le> i \<and> i \<le> length s
          \<and> prefix sub (drop i s) \<and> (\<forall>j. Suc start \<le> j \<and> j < i \<longrightarrow> \<not> prefix sub (drop j s))"
        then obtain i where i: "py_find s sub (Suc start) = int i" "Suc start \<le> i" "i \<le> length s"
          "prefix sub (drop i s)" "\<forall>j. Suc start \<le> j \<and> j < i \<longrightarrow> \<not> prefix sub (drop j s)"
          by blast
        have "\<forall>j. start \<le> j \<and> j < i \<longrightarrow> \<not> prefix sub (drop j s)"
        proof (intro allI impI)
          fix j assume "start \<le> j \<and> j < i"
          then show "\<not> prefix sub (drop j s)"
            using i(5) False by (cases "j = start") auto
        qed
        with i eq show ?thesis by auto
      qed
    qed
  qed
qed

lemma py_find_neg: "py_find s sub start < 0 \<longleftrightarrow> py_find s sub start = - 1"
  using py_find_spec [of s sub start] by auto

lemma py_find_found:
  assumes "py_find s sub start \<noteq> - 1"
  obtains i where "py_find s sub start = int i" "start \<le> i" "i + length sub \<le> length s"
    "prefix sub (drop i s)" "\<forall>j. start \<le> j \<and> j < i \<longrightarrow> \<not> prefix sub (drop j s)"
proof -
  from py_find_spec [of s sub start] assms
  obtain i where i: "py_find s sub start = int i" "start \<le> i" "i \<le> length s"
    "prefix sub (drop i s)" "\<forall>j. start \<le> j \<and> j < i \<longrightarrow> \<not> prefix sub (drop j s)"
    by blast
  from i(4) have "length sub \<le> length (drop i s)" by (rule prefix_length_le)
  with i(3) have "i + length sub \<le> length s" by simp
  with i that show thesis by blast
qed

lemma py_in_iff: "py_in sub s \<longleftrightarrow> (\<exists>a b. s = a @ sub @ b)"
proof
  assume "py_in sub s"
  then have "py_find s sub 0 \<noteq> - 1" by (simp add: py_in_def)
  then obtain i where "prefix sub (drop i s)" by (rule py_find_found)
  then obtain b where "drop i s = sub @ b" by (auto simp: prefix_def)
  then have "s = take i s @ sub @ b" by (metis append_take_drop_id)
  then show "\<exists>a b. s = a @ sub @ b" by blast
next
  assume "\<exists>a b. s = a @ sub @ b"
  then obtain a b where s: "s = a @ sub @ b" by blast
  then have "prefix sub (drop (length a) s)" and "length a \<le> length s" by simp_all
  with py_find_spec [of s sub 0] show "py_in sub s"
    by (auto simp: py_in_def)
qed

section \<open>The scan as a total function\<close>

text \<open>
  For a non-empty \<open>old_text\<close> the scan ends. The literal segments it cuts (the pieces of
  the text between the matches) are given by a total function, and the parts the loop
  builds are these literals with \<open>new_text\<close> between each two of them.
\<close>

function literals_from :: "string \<Rightarrow> string \<Rightarrow> nat \<Rightarrow> string list" where
  "literals_from t old_text start =
     (let idx = py_find t old_text start in
      if idx = - 1 \<or> old_text = [] then [drop start t]
      else slice t start (nat idx) # literals_from t old_text (nat idx + length old_text))"
  by pat_completeness auto
termination
proof (relation "measure (\<lambda>(t, old_text, start). Suc (length t) - start)")
  show "wf (measure (\<lambda>(t, old_text, start). Suc (length t) - start))" by simp
next
  fix t old_text :: string and start :: nat and x :: int
  assume x: "x = py_find t old_text start" and "\<not> (x = - 1 \<or> old_text = [])"
  then have nf: "py_find t old_text start \<noteq> - 1" and ne: "old_text \<noteq> []" by simp_all
  from nf obtain i where "py_find t old_text start = int i" "start \<le> i" "i + length old_text \<le> length t"
    by (rule py_find_found)
  with x ne show "((t, old_text, nat x + length old_text), t, old_text, start)
      \<in> measure (\<lambda>(t, old_text, start). Suc (length t) - start)"
    by (cases old_text) auto
qed

declare literals_from.simps [simp del]

lemma interleave_Cons: "ls \<noteq> [] \<Longrightarrow> interleave (l # ls) x = l # x # interleave ls x"
  by (cases ls) simp_all

lemma literals_from_nonempty: "literals_from t old_text start \<noteq> []"
  by (subst literals_from.simps) (simp add: Let_def)

lemma split_loop_eq:
  "old_text \<noteq> [] \<Longrightarrow>
   split_loop t old_text new_text start parts
     = Some (parts @ interleave (literals_from t old_text start) new_text)"
proof (induction t old_text start arbitrary: parts rule: literals_from.induct)
  case (1 t old_text start)
  show ?case
  proof (cases "py_find t old_text start = - 1")
    case True
    then show ?thesis
      by (subst split_loop.simps, subst literals_from.simps) simp
  next
    case False
    with "1.prems" have step: "split_loop t old_text new_text (nat (py_find t old_text start) + length old_text)
        (parts @ [slice t start (nat (py_find t old_text start)), new_text])
      = Some ((parts @ [slice t start (nat (py_find t old_text start)), new_text])
          @ interleave (literals_from t old_text (nat (py_find t old_text start) + length old_text)) new_text)"
      by (intro "1.IH") simp_all
    from False "1.prems" show ?thesis
      by (subst split_loop.simps, subst literals_from.simps)
        (simp add: step Let_def interleave_Cons literals_from_nonempty)
  qed
qed

lemma literals_from_count:
  "old_text \<noteq> [] \<Longrightarrow>
   (length (literals_from t old_text start) - 1) * length old_text \<le> length t - start"
proof (induction t old_text start rule: literals_from.induct)
  case (1 t old_text start)
  show ?case
  proof (cases "py_find t old_text start = - 1")
    case True
    then show ?thesis by (subst literals_from.simps) simp
  next
    case False
    then obtain i where i: "py_find t old_text start = int i" "start \<le> i"
      "i + length old_text \<le> length t"
      by (rule py_find_found)
    let ?rest = "literals_from t old_text (i + length old_text)"
    from False "1.prems" i have IH: "(length ?rest - 1) * length old_text \<le> length t - (i + length old_text)"
      using "1.IH" [of "py_find t old_text start"] by simp
    from False "1.prems" i have eq: "literals_from t old_text start = slice t start i # ?rest"
      by (subst literals_from.simps) simp
    have "?rest \<noteq> []" by (rule literals_from_nonempty)
    then obtain n where n: "length ?rest = Suc n" by (cases ?rest) simp_all
    then have "(length (slice t start i # ?rest) - 1) * length old_text
        = (length ?rest - 1) * length old_text + length old_text"
      by simp
    also from IH have "\<dots> \<le> (length t - (i + length old_text)) + length old_text"
      by simp
    also from i have "\<dots> \<le> length t - start" by simp
    finally show ?thesis by (simp only: eq)
  qed
qed

lemma length_interleave: "ls \<noteq> [] \<Longrightarrow> length (interleave ls x) = 2 * (length ls - 1) + 1"
  by (induction ls x rule: interleave.induct) simp_all

section \<open>What the pass over the runs computes\<close>

text \<open>
  One pass of the inner loop puts the new runs right behind the run they come from, each
  with that run's format. \<open>split_run\<close> is the list of runs one run is turned into; the
  pass turns the paragraph into the concatenation of these lists.
\<close>

lemma add_one_segment:
  assumes "src < length p" and "run_index < length p"
  shows "parent_insert (Suc run_index) (copy_format src (length (add_run p seg) - 1) (add_run p seg))
    = take (Suc run_index) p @ [(p ! src)\<lparr>rtext := seg\<rparr>] @ drop (Suc run_index) p"
proof -
  have copied: "copy_format src (length (add_run p seg) - 1) (add_run p seg)
      = p @ [(p ! src)\<lparr>rtext := seg\<rparr>]"
    using assms(1) by (simp add: copy_format_def add_run_def new_run_def nth_append)
  show ?thesis
  proof (cases "Suc run_index < length p")
    case True
    then show ?thesis unfolding copied parent_insert_def by simp
  next
    case False
    with assms(2) have "Suc run_index = length p" by simp
    then show ?thesis unfolding copied parent_insert_def by simp
  qed
qed

lemma shift_from_all_above: "\<forall>q \<in> set pending. i \<le> q \<Longrightarrow> shift_from i pending = map Suc pending"
  by (simp add: shift_from_def)

lemma add_segments_eq:
  assumes "src \<le> run_index" and "run_index < length p" and "\<forall>q \<in> set pending. run_index < q"
  shows "add_segments src segs run_index (p, pending)
    = (take (Suc run_index) p @ map (\<lambda>seg. (p ! src)\<lparr>rtext := seg\<rparr>) segs @ drop (Suc run_index) p,
       map (\<lambda>q. q + length segs) pending)"
  using assms
proof (induction segs arbitrary: run_index p pending)
  case Nil
  then show ?case by simp
next
  case (Cons seg segs)
  let ?new = "(p ! src)\<lparr>rtext := seg\<rparr>"
  let ?p3 = "take (Suc run_index) p @ [?new] @ drop (Suc run_index) p"
  from Cons.prems have src: "src < length p" by simp
  have step: "parent_insert (Suc run_index) (copy_format src (length (add_run p seg) - 1) (add_run p seg)) = ?p3"
    using src Cons.prems(2) by (rule add_one_segment)
  have sh: "shift_from (Suc run_index) pending = map Suc pending"
    using Cons.prems(3) by (intro shift_from_all_above) auto
  have len3: "length ?p3 = Suc (length p)" using Cons.prems(2) by simp
  have src3: "?p3 ! src = p ! src"
    using Cons.prems(1,2) by (simp add: nth_append)
  have IH: "add_segments src segs (Suc run_index) (?p3, map Suc pending)
    = (take (Suc (Suc run_index)) ?p3 @ map (\<lambda>seg. (?p3 ! src)\<lparr>rtext := seg\<rparr>) segs
         @ drop (Suc (Suc run_index)) ?p3,
       map (\<lambda>q. q + length segs) (map Suc pending))"
    using Cons.prems len3 by (intro Cons.IH) auto
  have tk: "take (Suc (Suc run_index)) ?p3 = take (Suc run_index) p @ [?new]"
    using Cons.prems(2) by simp
  have dr: "drop (Suc (Suc run_index)) ?p3 = drop (Suc run_index) p"
    using Cons.prems(2) by simp
  have "add_segments src (seg # segs) run_index (p, pending)
      = add_segments src segs (Suc run_index) (?p3, map Suc pending)"
    unfolding add_segments.simps Let_def Suc_eq_plus1 [symmetric] step sh ..
  also note IH
  finally show ?case
    unfolding tk dr src3 by (simp add: comp_def)
qed


definition split_run :: "string \<Rightarrow> string \<Rightarrow> run \<Rightarrow> run list" where
  "split_run old_text new_text r =
     (if py_in old_text (rtext r)
      then map (\<lambda>seg. r\<lparr>rtext := seg\<rparr>) (interleave (literals_from (rtext r) old_text 0) new_text)
      else [r])"

lemma split_run_unchanged: "\<not> py_in old_text (rtext r) \<Longrightarrow> split_run old_text new_text r = [r]"
  by (simp add: split_run_def)

lemma split_run_changed:
  "py_in old_text (rtext r) \<Longrightarrow>
   split_run old_text new_text r
     = map (\<lambda>seg. r\<lparr>rtext := seg\<rparr>) (interleave (literals_from (rtext r) old_text 0) new_text)"
  by (simp add: split_run_def)

lemma map_add_upt': "map (\<lambda>q. q + n) [a..<b] = [a + n..<b + n]"
  by (induction b) simp_all

lemma interleave_nonempty: "ls \<noteq> [] \<Longrightarrow> interleave ls x \<noteq> []"
  by (induction ls x rule: interleave.induct) simp_all

lemma run_pass_eq:
  "old_text \<noteq> [] \<Longrightarrow>
   run_pass [length pre..<length pre + length rest] old_text new_text (pre @ rest) b
     = Some (pre @ concat (map (split_run old_text new_text) rest),
             b \<or> (\<exists>r \<in> set rest. py_in old_text (rtext r)))"
proof (induction rest arbitrary: pre b)
  case Nil
  then show ?case by simp
next
  case (Cons r rest)
  let ?n = "length pre"
  have upt: "[?n..<?n + length (r # rest)] = ?n # [Suc ?n..<Suc ?n + length rest]"
    using upt_conv_Cons [of ?n "?n + length (r # rest)"] by (simp del: upt_Suc)
  have nth: "(pre @ r # rest) ! ?n = r" by simp
  show ?case
  proof (cases "py_in old_text (rtext r)")
    case False
    have "run_pass [?n..<?n + length (r # rest)] old_text new_text (pre @ r # rest) b
        = run_pass [length (pre @ [r])..<length (pre @ [r]) + length rest] old_text new_text
            ((pre @ [r]) @ rest) b"
      unfolding upt using False by (simp add: nth)
    also have "\<dots> = Some ((pre @ [r]) @ concat (map (split_run old_text new_text) rest),
        b \<or> (\<exists>r \<in> set rest. py_in old_text (rtext r)))"
      using Cons.prems by (rule Cons.IH)
    finally show ?thesis using False by (simp add: split_run_unchanged del: upt_Suc)
  next
    case True
    let ?parts = "interleave (literals_from (rtext r) old_text 0) new_text"
    have loop: "split_loop (rtext r) old_text new_text 0 [] = Some ?parts"
      using split_loop_eq [OF Cons.prems, of "rtext r" new_text 0 "[]"] by simp
    have "?parts \<noteq> []" by (simp add: interleave_nonempty literals_from_nonempty)
    then obtain first others where parts: "?parts = first # others" by (cases ?parts) auto
    let ?r' = "r\<lparr>rtext := first\<rparr>"
    let ?p1 = "pre @ ?r' # rest"
    have upd: "(pre @ r # rest)[?n := r\<lparr>rtext := first\<rparr>] = ?p1"
      by simp
    have segs: "add_segments ?n others ?n (?p1, [Suc ?n..<Suc ?n + length rest])
        = (take (Suc ?n) ?p1 @ map (\<lambda>seg. (?p1 ! ?n)\<lparr>rtext := seg\<rparr>) others @ drop (Suc ?n) ?p1,
           map (\<lambda>q. q + length others) [Suc ?n..<Suc ?n + length rest])"
      by (rule add_segments_eq) (auto simp del: upt_Suc)
    let ?pre' = "pre @ map (\<lambda>seg. r\<lparr>rtext := seg\<rparr>) ?parts"
    have p2: "take (Suc ?n) ?p1 @ map (\<lambda>seg. (?p1 ! ?n)\<lparr>rtext := seg\<rparr>) others @ drop (Suc ?n) ?p1
        = ?pre' @ rest"
      by (simp add: parts)
    have pend: "map (\<lambda>q. q + length others) [Suc ?n..<Suc ?n + length rest]
        = [length ?pre'..<length ?pre' + length rest]"
      by (simp add: map_add_upt' parts add.commute add.left_commute)
    have "run_pass [?n..<?n + length (r # rest)] old_text new_text (pre @ r # rest) b
        = run_pass [length ?pre'..<length ?pre' + length rest] old_text new_text (?pre' @ rest) True"
      unfolding upt run_pass.simps nth using True
      by (simp only: if_True loop parts option.case list.case upd segs p2 pend prod.case)
    also have "\<dots> = Some (?pre' @ concat (map (split_run old_text new_text) rest),
        True \<or> (\<exists>r \<in> set rest. py_in old_text (rtext r)))"
      using Cons.prems by (rule Cons.IH)
    finally show ?thesis using True by (simp add: split_run_changed del: upt_Suc)
  qed
qed

lemma concat_split_run_unchanged:
  "\<forall>r \<in> set p. \<not> py_in old_text (rtext r) \<Longrightarrow> concat (map (split_run old_text new_text) p) = p"
  by (induction p) (simp_all add: split_run_unchanged)

lemma deep_replace_eq:
  assumes "old_text \<noteq> []"
  shows "deep_replace_text_in_paragraph p old_text new_text
    = Some (if \<exists>r \<in> set p. py_in old_text (rtext r)
            then concat (map (split_run old_text new_text) p)
            else if py_in old_text (paragraph_text p)
            then [new_run (py_replace (paragraph_text p) old_text new_text)]
            else p, Py_None)"
proof -
  have pass: "run_pass [0..<length p] old_text new_text p False
      = Some (concat (map (split_run old_text new_text) p), \<exists>r \<in> set p. py_in old_text (rtext r))"
    using run_pass_eq [OF assms, of "[]" p new_text False] by simp
  show ?thesis
  proof (cases "\<exists>r \<in> set p. py_in old_text (rtext r)")
    case True
    then show ?thesis
      unfolding deep_replace_text_in_paragraph_def pass by simp
  next
    case False
    then have "concat (map (split_run old_text new_text) p) = p"
      by (intro concat_split_run_unchanged) simp
    with False show ?thesis
      unfolding deep_replace_text_in_paragraph_def pass by (simp add: add_run_def Let_def)
  qed
qed

section \<open>The parts of a run and \<^verbatim>\<open>str.replace\<close>\<close>

text \<open>
  Put together again, the parts the scan cuts from a text are what \<^verbatim>\<open>str.replace\<close> makes
  of that text; and a text found in one run is found in the paragraph's text.
\<close>

lemma py_replace_Nil: "old_text \<noteq> [] \<Longrightarrow> py_replace [] old_text new_text = []"
  by (subst py_replace.simps) simp

lemma py_replace_match:
  "old_text \<noteq> [] \<Longrightarrow> prefix old_text s \<Longrightarrow>
   py_replace s old_text new_text = new_text @ py_replace (drop (length old_text) s) old_text new_text"
  by (subst py_replace.simps) auto

lemma py_replace_skip:
  "old_text \<noteq> [] \<Longrightarrow> \<not> prefix old_text (c # cs) \<Longrightarrow>
   py_replace (c # cs) old_text new_text = c # py_replace cs old_text new_text"
  by (subst py_replace.simps) simp

lemma py_replace_first_occ:
  assumes "old_text \<noteq> []"
  shows "\<forall>j < k. \<not> prefix old_text (drop j u) \<Longrightarrow> prefix old_text (drop k u) \<Longrightarrow>
    py_replace u old_text new_text
      = take k u @ new_text @ py_replace (drop (k + length old_text) u) old_text new_text"
proof (induction k arbitrary: u)
  case 0
  then show ?case using assms by (simp add: py_replace_match)
next
  case (Suc k)
  from Suc.prems(2) assms have "drop (Suc k) u \<noteq> []" by auto
  then obtain c cs where u: "u = c # cs" by (cases u) auto
  from Suc.prems(1) have "\<not> prefix old_text (drop 0 u)" by blast
  then have no: "\<not> prefix old_text (c # cs)" by (simp add: u)
  have "\<forall>j < k. \<not> prefix old_text (drop j cs)"
  proof (intro allI impI)
    fix j assume "j < k"
    then have "\<not> prefix old_text (drop (Suc j) u)" using Suc.prems(1) by simp
    then show "\<not> prefix old_text (drop j cs)" by (simp add: u)
  qed
  moreover from Suc.prems(2) have "prefix old_text (drop k cs)" by (simp add: u)
  ultimately have "py_replace cs old_text new_text
      = take k cs @ new_text @ py_replace (drop (k + length old_text) cs) old_text new_text"
    by (rule Suc.IH)
  then show ?case using assms no by (simp add: u py_replace_skip)
qed

lemma py_replace_no_occ:
  assumes "old_text \<noteq> []"
  shows "\<forall>j \<le> length u. \<not> prefix old_text (drop j u) \<Longrightarrow> py_replace u old_text new_text = u"
proof (induction u)
  case Nil
  then show ?case using assms by (simp add: py_replace_Nil)
next
  case (Cons c cs)
  from Cons.prems have "\<not> prefix old_text (drop 0 (c # cs))" by blast
  then have no: "\<not> prefix old_text (c # cs)" by simp
  have "\<forall>j \<le> length cs. \<not> prefix old_text (drop j cs)"
  proof (intro allI impI)
    fix j assume "j \<le> length cs"
    then have "\<not> prefix old_text (drop (Suc j) (c # cs))" using Cons.prems by auto
    then show "\<not> prefix old_text (drop j cs)" by simp
  qed
  then have "py_replace cs old_text new_text = cs" by (rule Cons.IH)
  then show ?case using assms no by (simp add: py_replace_skip)
qed

lemma py_in_prefix_iff: "py_in sub s \<longleftrightarrow> (\<exists>j \<le> length s. prefix sub (drop j s))"
  using py_find_spec [of s sub 0] by (auto simp: py_in_def)

lemma py_replace_not_in:
  "old_text \<noteq> [] \<Longrightarrow> \<not> py_in old_text s \<Longrightarrow> py_replace s old_text new_text = s"
  by (rule py_replace_no_occ) (auto simp: py_in_prefix_iff)

lemma concat_interleave_literals:
  "old_text \<noteq> [] \<Longrightarrow> start \<le> length t \<Longrightarrow>
   concat (interleave (literals_from t old_text start) new_text)
     = py_replace (drop start t) old_text new_text"
proof (induction t old_text start rule: literals_from.induct)
  case (1 t old_text start)
  note ne = \<open>old_text \<noteq> []\<close>
  show ?case
  proof (cases "py_find t old_text start = - 1")
    case True
    with py_find_spec [of t old_text start]
    have none: "\<forall>j. start \<le> j \<and> j \<le> length t \<longrightarrow> \<not> prefix old_text (drop j t)" by auto
    have "\<forall>j \<le> length (drop start t). \<not> prefix old_text (drop j (drop start t))"
    proof (intro allI impI)
      fix j assume "j \<le> length (drop start t)"
      with "1.prems"(2) have "start \<le> j + start \<and> j + start \<le> length t" by simp
      with none have "\<not> prefix old_text (drop (j + start) t)" by blast
      then show "\<not> prefix old_text (drop j (drop start t))" by simp
    qed
    with ne have "py_replace (drop start t) old_text new_text = drop start t"
      by (rule py_replace_no_occ)
    with True show ?thesis by (subst literals_from.simps) simp
  next
    case False
    then obtain i where i: "py_find t old_text start = int i" "start \<le> i"
      "i + length old_text \<le> length t" "prefix old_text (drop i t)"
      "\<forall>j. start \<le> j \<and> j < i \<longrightarrow> \<not> prefix old_text (drop j t)"
      by (rule py_find_found)
    let ?rest = "literals_from t old_text (i + length old_text)"
    from False ne i have IH: "concat (interleave ?rest new_text)
        = py_replace (drop (i + length old_text) t) old_text new_text"
      using "1.IH" [of "py_find t old_text start"] by simp
    from False ne i have eq: "literals_from t old_text start = slice t start i # ?rest"
      by (subst literals_from.simps) simp
    let ?u = "drop start t"
    have a: "\<forall>j < i - start. \<not> prefix old_text (drop j ?u)"
    proof (intro allI impI)
      fix j assume "j < i - start"
      then have "start \<le> j + start \<and> j + start < i" by simp
      with i(5) have "\<not> prefix old_text (drop (j + start) t)" by blast
      then show "\<not> prefix old_text (drop j ?u)" by simp
    qed
    have b: "prefix old_text (drop (i - start) ?u)" using i(2,4) by simp
    have "py_replace ?u old_text new_text
        = take (i - start) ?u @ new_text
          @ py_replace (drop (i - start + length old_text) ?u) old_text new_text"
      using ne a b by (rule py_replace_first_occ)
    also have "drop (i - start + length old_text) ?u = drop (i + length old_text) t"
      using i(2) by simp
    finally show ?thesis
      by (simp add: eq interleave_Cons literals_from_nonempty IH slice_def)
  qed
qed

lemma split_run_text:
  assumes "old_text \<noteq> []"
  shows "concat (map rtext (split_run old_text new_text r)) = py_replace (rtext r) old_text new_text"
proof (cases "py_in old_text (rtext r)")
  case True
  then have "concat (map rtext (split_run old_text new_text r))
      = concat (interleave (literals_from (rtext r) old_text 0) new_text)"
    by (simp add: split_run_changed comp_def)
  also have "\<dots> = py_replace (drop 0 (rtext r)) old_text new_text"
    using assms by (rule concat_interleave_literals) simp
  finally show ?thesis by simp
next
  case False
  then show ?thesis using assms by (simp add: split_run_unchanged py_replace_not_in)
qed

lemma split_run_format: "r' \<in> set (split_run old_text new_text r) \<Longrightarrow> run_format r' = run_format r"
  by (auto simp: split_run_def run_format_def split: if_splits)

lemma split_run_nonempty: "split_run old_text new_text r \<noteq> []"
  by (simp add: split_run_def interleave_nonempty literals_from_nonempty)

lemma py_in_concat:
  assumes "s \<in> set ss" and "py_in sub s"
  shows "py_in sub (concat ss)"
proof -
  from assms(1) obtain xs ys where ss: "ss = xs @ s # ys" by (auto simp: in_set_conv_decomp)
  from assms(2) obtain a b where "s = a @ sub @ b" by (auto simp: py_in_iff)
  with ss have "concat ss = (concat xs @ a) @ sub @ (b @ concat ys)" by simp
  then show ?thesis unfolding py_in_iff by blast
qed

lemma py_in_paragraph_text: "r \<in> set p \<Longrightarrow> py_in sub (rtext r) \<Longrightarrow> py_in sub (paragraph_text p)"
  unfolding paragraph_text_def by (rule py_in_concat [of "rtext r"]) simp_all

section \<open>Where the scan cuts\<close>

text \<open>
  The literal segments, with \<open>old_text\<close> put back between them, are the text that was
  scanned; each match is the first occurrence after the match before it; and what is
  left after the last match holds no occurrence.
\<close>

lemma literals_step:
  assumes "old_text \<noteq> []" and "py_find t old_text start = int i"
  shows "literals_from t old_text start = slice t start i # literals_from t old_text (i + length old_text)"
  using assms by (subst literals_from.simps) simp

lemma literals_stop:
  assumes "py_find t old_text start = - 1"
  shows "literals_from t old_text start = [drop start t]"
  using assms by (subst literals_from.simps) simp

lemma concat_interleave_old:
  "old_text \<noteq> [] \<Longrightarrow> start \<le> length t \<Longrightarrow>
   concat (interleave (literals_from t old_text start) old_text) = drop start t"
proof (induction t old_text start rule: literals_from.induct)
  case (1 t old_text start)
  note ne = \<open>old_text \<noteq> []\<close>
  show ?case
  proof (cases "py_find t old_text start = - 1")
    case True
    then show ?thesis by (simp add: literals_stop)
  next
    case False
    then obtain i where i: "py_find t old_text start = int i" "start \<le> i"
      "i + length old_text \<le> length t" "prefix old_text (drop i t)"
      by (rule py_find_found)
    let ?rest = "literals_from t old_text (i + length old_text)"
    from False ne i have IH: "concat (interleave ?rest old_text) = drop (i + length old_text) t"
      using "1.IH" [of "py_find t old_text start"] by simp
    from i(4) obtain b where b: "drop i t = old_text @ b" by (auto simp: prefix_def)
    then have "drop (length old_text) (drop i t) = b" by simp
    then have b': "drop (i + length old_text) t = b" by (simp add: add.commute)
    have "drop start t = take (i - start) (drop start t) @ drop (i - start) (drop start t)"
      by (rule append_take_drop_id [symmetric])
    also have "drop (i - start) (drop start t) = drop i t" using i(2) by simp
    finally have "drop start t = slice t start i @ old_text @ b" by (simp add: slice_def b)
    then show ?thesis
      by (simp add: literals_step [OF ne i(1)] interleave_Cons literals_from_nonempty IH b')
  qed
qed

lemma find_at_end:
  assumes "\<forall>j < length l. \<not> prefix sub (drop j (l @ sub))"
  shows "py_find (l @ sub) sub 0 = int (length l)"
proof -
  have here: "prefix sub (drop (length l) (l @ sub))" by simp
  from py_find_spec [of "l @ sub" sub 0] show ?thesis
  proof
    assume "py_find (l @ sub) sub 0 = - 1
      \<and> (\<forall>j. 0 \<le> j \<and> j \<le> length (l @ sub) \<longrightarrow> \<not> prefix sub (drop j (l @ sub)))"
    then have "\<forall>j. 0 \<le> j \<and> j \<le> length (l @ sub) \<longrightarrow> \<not> prefix sub (drop j (l @ sub))"
      by (rule conjunct2)
    moreover have "0 \<le> length l \<and> length l \<le> length (l @ sub)" by simp
    ultimately have "\<not> prefix sub (drop (length l) (l @ sub))" by blast
    with here show ?thesis by blast
  next
    assume "\<exists>i. py_find (l @ sub) sub 0 = int i \<and> 0 \<le> i \<and> i \<le> length (l @ sub)
      \<and> prefix sub (drop i (l @ sub)) \<and> (\<forall>j. 0 \<le> j \<and> j < i \<longrightarrow> \<not> prefix sub (drop j (l @ sub)))"
    then obtain i where i: "py_find (l @ sub) sub 0 = int i" "prefix sub (drop i (l @ sub))"
      "\<forall>j. 0 \<le> j \<and> j < i \<longrightarrow> \<not> prefix sub (drop j (l @ sub))" by blast
    have "\<not> length l < i" using i(3) here by blast
    moreover have "\<not> i < length l" using assms i(2) by blast
    ultimately show ?thesis using i(1) by simp
  qed
qed

lemma literals_leftmost:
  "old_text \<noteq> [] \<Longrightarrow> start \<le> length t \<Longrightarrow>
   \<forall>l \<in> set (butlast (literals_from t old_text start)).
     py_find (l @ old_text) old_text 0 = int (length l)"
proof (induction t old_text start rule: literals_from.induct)
  case (1 t old_text start)
  note ne = \<open>old_text \<noteq> []\<close>
  show ?case
  proof (cases "py_find t old_text start = - 1")
    case True
    then show ?thesis by (simp add: literals_stop)
  next
    case False
    then obtain i where i: "py_find t old_text start = int i" "start \<le> i"
      "i + length old_text \<le> length t" "prefix old_text (drop i t)"
      "\<forall>j. start \<le> j \<and> j < i \<longrightarrow> \<not> prefix old_text (drop j t)"
      by (rule py_find_found)
    let ?rest = "literals_from t old_text (i + length old_text)"
    let ?l = "slice t start i"
    from False ne i have IH: "\<forall>l \<in> set (butlast ?rest). py_find (l @ old_text) old_text 0 = int (length l)"
      using "1.IH" [of "py_find t old_text start"] by simp
    from i(4) obtain b where b: "drop i t = old_text @ b" by (auto simp: prefix_def)
    have len: "length ?l = i - start" using i(2,3) by (simp add: slice_def)
    have "drop start t = take (i - start) (drop start t) @ drop (i - start) (drop start t)"
      by (rule append_take_drop_id [symmetric])
    also have "drop (i - start) (drop start t) = drop i t" using i(2) by simp
    finally have whole: "drop start t = (?l @ old_text) @ b" by (simp add: slice_def b)
    have "\<forall>j < length ?l. \<not> prefix old_text (drop j (?l @ old_text))"
    proof (intro allI impI notI)
      fix j assume j: "j < length ?l" and p: "prefix old_text (drop j (?l @ old_text))"
      have "prefix (drop j (?l @ old_text)) (drop j ((?l @ old_text) @ b))"
        using j by (simp add: prefix_def)
      with p have "prefix old_text (drop j (drop start t))"
        unfolding whole by (rule prefix_order.trans)
      then have "prefix old_text (drop (start + j) t)" by (simp add: add.commute)
      moreover from j len have "start \<le> start + j \<and> start + j < i" by simp
      ultimately show False using i(5) by blast
    qed
    then have first: "py_find (?l @ old_text) old_text 0 = int (length ?l)"
      by (rule find_at_end)
    have "butlast (?l # ?rest) = ?l # butlast ?rest"
      by (simp add: literals_from_nonempty)
    with first IH show ?thesis
      by (simp add: literals_step [OF ne i(1)])
  qed
qed

lemma literals_last:
  "old_text \<noteq> [] \<Longrightarrow> start \<le> length t \<Longrightarrow>
   \<not> py_in old_text (last (literals_from t old_text start))"
proof (induction t old_text start rule: literals_from.induct)
  case (1 t old_text start)
  note ne = \<open>old_text \<noteq> []\<close>
  show ?case
  proof (cases "py_find t old_text start = - 1")
    case True
    with py_find_spec [of t old_text start]
    have none: "\<forall>j. start \<le> j \<and> j \<le> length t \<longrightarrow> \<not> prefix old_text (drop j t)" by auto
    have "\<not> (\<exists>j \<le> length (drop start t). prefix old_text (drop j (drop start t)))"
    proof
      assume "\<exists>j \<le> length (drop start t). prefix old_text (drop j (drop start t))"
      then obtain j where j: "j \<le> length (drop start t)" "prefix old_text (drop j (drop start t))"
        by blast
      from j(1) "1.prems"(2) have "start \<le> j + start \<and> j + start \<le> length t" by simp
      with none have "\<not> prefix old_text (drop (j + start) t)" by blast
      with j(2) show False by simp
    qed
    then show ?thesis by (simp add: literals_stop [OF True] py_in_prefix_iff)
  next
    case False
    then obtain i where i: "py_find t old_text start = int i" "start \<le> i"
      "i + length old_text \<le> length t"
      by (rule py_find_found)
    let ?rest = "literals_from t old_text (i + length old_text)"
    from False ne i have IH: "\<not> py_in old_text (last ?rest)"
      using "1.IH" [of "py_find t old_text start"] by simp
    then show ?thesis
      by (simp add: literals_step [OF ne i(1)] literals_from_nonempty)
  qed
qed

section \<open>The paragraph's text after the pass\<close>

text \<open>
  The text of the paragraph after the pass is made of the substitutions in each run; and
  \<^verbatim>\<open>str.replace\<close> on a concatenation is the concatenation of the substitutions when no
  occurrence lies across two of the texts.
\<close>

lemma split_runs_text:
  "old_text \<noteq> [] \<Longrightarrow>
   paragraph_text (concat (map (split_run old_text new_text) p))
     = concat (map (\<lambda>r. py_replace (rtext r) old_text new_text) p)"
proof (induction p)
  case Nil
  show ?case by (simp add: paragraph_text_def)
next
  case (Cons r p)
  have "paragraph_text (concat (map (split_run old_text new_text) (r # p)))
      = concat (map rtext (split_run old_text new_text r))
        @ paragraph_text (concat (map (split_run old_text new_text) p))"
    by (simp add: paragraph_text_def)
  with Cons show ?case by (simp add: split_run_text)
qed

lemma concat_interleave_Nil: "concat (interleave ls []) = concat ls"
  by (induction ls "[] :: 'a list" rule: interleave.induct) simp_all

lemma literals_from_two:
  assumes "old_text \<noteq> []" and "py_in old_text t"
  shows "2 \<le> length (literals_from t old_text 0)"
    and "hd (literals_from t old_text 0) = slice t 0 (nat (py_find t old_text 0))"
proof -
  from assms(2) have "py_find t old_text 0 \<noteq> - 1" by (simp add: py_in_def)
  then obtain i where i: "py_find t old_text 0 = int i" by (rule py_find_found)
  have eq: "literals_from t old_text 0 = slice t 0 i # literals_from t old_text (i + length old_text)"
    using assms(1) i by (rule literals_step)
  have "literals_from t old_text (i + length old_text) \<noteq> []" by (rule literals_from_nonempty)
  then have "1 \<le> length (literals_from t old_text (i + length old_text))"
    by (cases "literals_from t old_text (i + length old_text)") simp_all
  then show "2 \<le> length (literals_from t old_text 0)" by (simp add: eq)
  show "hd (literals_from t old_text 0) = slice t 0 (nat (py_find t old_text 0))"
    by (simp add: eq i)
qed

lemma prefix_append_short:
  assumes "prefix xs (ys @ zs)" and "length xs \<le> length ys"
  shows "prefix xs ys"
proof -
  from assms(1) have "prefix xs ys \<or> (\<exists>us. xs = ys @ us \<and> prefix us zs)"
    by (simp add: prefix_append)
  then show ?thesis
  proof
    assume "\<exists>us. xs = ys @ us \<and> prefix us zs"
    then obtain us where "xs = ys @ us" by blast
    with assms(2) show ?thesis by simp
  qed
qed

lemma py_replace_append:
  assumes ne: "old_text \<noteq> []"
  shows "\<forall>j < length t. prefix old_text (drop j (t @ u)) \<longrightarrow> j + length old_text \<le> length t \<Longrightarrow>
    py_replace (t @ u) old_text new_text
      = py_replace t old_text new_text @ py_replace u old_text new_text"
proof (induction "length t" arbitrary: t rule: less_induct)
  case less
  show ?case
  proof (cases t)
    case Nil
    then show ?thesis using ne by (simp add: py_replace_Nil)
  next
    case (Cons c cs)
    show ?thesis
    proof (cases "prefix old_text (t @ u)")
      case True
      with less.prems Cons have fits: "length old_text \<le> length t" by force
      with True have here: "prefix old_text t" by (rule prefix_append_short)
      let ?t' = "drop (length old_text) t"
      have shorter: "length ?t' < length t" using ne Cons by (cases old_text) simp_all
      have cond: "\<forall>j < length ?t'. prefix old_text (drop j (?t' @ u)) \<longrightarrow> j + length old_text \<le> length ?t'"
      proof (intro allI impI)
        fix j assume j: "j < length ?t'" and p: "prefix old_text (drop j (?t' @ u))"
        have "drop j (?t' @ u) = drop (j + length old_text) (t @ u)"
          using fits by (simp add: add.commute)
        with p have "prefix old_text (drop (j + length old_text) (t @ u))" by simp
        moreover from j have "j + length old_text < length t" by simp
        ultimately have "j + length old_text + length old_text \<le> length t"
          using less.prems by blast
        then show "j + length old_text \<le> length ?t'" by simp
      qed
      have IH: "py_replace (?t' @ u) old_text new_text
          = py_replace ?t' old_text new_text @ py_replace u old_text new_text"
        using shorter cond by (rule less.hyps)
      have "py_replace (t @ u) old_text new_text
          = new_text @ py_replace (drop (length old_text) (t @ u)) old_text new_text"
        using ne True by (rule py_replace_match)
      also have "drop (length old_text) (t @ u) = ?t' @ u" using fits by simp
      finally have "py_replace (t @ u) old_text new_text
          = (new_text @ py_replace ?t' old_text new_text) @ py_replace u old_text new_text"
        by (simp add: IH)
      also have "new_text @ py_replace ?t' old_text new_text = py_replace t old_text new_text"
        using py_replace_match [OF ne here, of new_text] by simp
      finally show ?thesis .
    next
      case False
      then have no: "\<not> prefix old_text (c # (cs @ u))" by (simp add: Cons)
      have no_t: "\<not> prefix old_text (c # cs)"
      proof
        assume "prefix old_text (c # cs)"
        then have "prefix old_text ((c # cs) @ u)" by (rule prefix_prefix)
        with False show False by (simp add: Cons)
      qed
      have cond: "\<forall>j < length cs. prefix old_text (drop j (cs @ u)) \<longrightarrow> j + length old_text \<le> length cs"
      proof (intro allI impI)
        fix j assume j: "j < length cs" and p: "prefix old_text (drop j (cs @ u))"
        from p have "prefix old_text (drop (Suc j) (t @ u))" by (simp add: Cons)
        moreover from j have "Suc j < length t" by (simp add: Cons)
        ultimately have "Suc j + length old_text \<le> length t" using less.prems by blast
        then show "j + length old_text \<le> length cs" by (simp add: Cons)
      qed
      have "length cs < length t" by (simp add: Cons)
      then have IH: "py_replace (cs @ u) old_text new_text
          = py_replace cs old_text new_text @ py_replace u old_text new_text"
        using cond by (rule less.hyps)
      have "py_replace (t @ u) old_text new_text = c # py_replace (cs @ u) old_text new_text"
        using py_replace_skip [OF ne no, of new_text] by (simp add: Cons)
      also have "\<dots> = (c # py_replace cs old_text new_text) @ py_replace u old_text new_text"
        by (simp add: IH)
      also have "c # py_replace cs old_text new_text = py_replace t old_text new_text"
        using py_replace_skip [OF ne no_t, of new_text] by (simp add: Cons)
      finally show ?thesis .
    qed
  qed
qed

lemma py_replace_concat:
  assumes "old_text \<noteq> []"
  shows "no_straddle old_text ts \<Longrightarrow>
    py_replace (concat ts) old_text new_text = concat (map (\<lambda>t. py_replace t old_text new_text) ts)"
proof (induction ts)
  case Nil
  show ?case using assms by (simp add: py_replace_Nil)
next
  case (Cons t ts)
  from Cons.prems have "\<forall>j < length t. prefix old_text (drop j (t @ concat ts)) \<longrightarrow>
      j + length old_text \<le> length t"
    by simp
  with assms have "py_replace (t @ concat ts) old_text new_text
      = py_replace t old_text new_text @ py_replace (concat ts) old_text new_text"
    by (rule py_replace_append)
  with Cons show ?case by simp
qed

section \<open>Replacement inside one run\<close>

text \<open>
  A paragraph with the runs \<open>ab\<close>, \<open>a\<close>, \<open>b\<close> and the rule \<open>ab\<close> to \<open>X\<close>: the first run holds a
  whole occurrence, and a second occurrence lies across the last two runs. The pass
  rewrites the first run only, and the paragraph's text becomes \<open>Xab\<close>, where
  \<^verbatim>\<open>str.replace\<close> on the whole text gives \<open>XX\<close>: the fallback for the whole paragraph is
  guarded by \<^verbatim>\<open>not replaced_in_run\<close>.
\<close>

theorem straddling_match_beside_run_match_counterexample:
  "py_in ''ab'' (rtext ((new_run ''ab'')\<lparr>bold := Some True\<rparr>))
   \<and> map_option (paragraph_text \<circ> fst)
        (deep_replace_text_in_paragraph
           [(new_run ''ab'')\<lparr>bold := Some True\<rparr>, new_run ''a'', new_run ''b''] ''ab'' ''X'')
       = Some ''Xab''
   \<and> py_replace (paragraph_text [(new_run ''ab'')\<lparr>bold := Some True\<rparr>, new_run ''a'', new_run ''b''])
        ''ab'' ''X'' = ''XX''"
  by code_simp

text \<open>
  Claim C1, amended. For a paragraph and a rule with a non-empty \<open>old_text\<close> that occurs
  whole in at least one run: every run of the paragraph is turned into a non-empty group
  of consecutive runs, in the order of the original runs; the texts of a group, put
  together, are \<^verbatim>\<open>str.replace\<close> applied to the text of the run the group comes from; every
  run of a group has the format (bold, italic, underline, font name, font size, style) of
  that run. So the paragraph's text afterwards is the concatenation of the substitutions
  made run by run; an occurrence lying across two runs is not replaced. When no
  occurrence lies across two runs, the paragraph's text afterwards is \<^verbatim>\<open>str.replace\<close>
  applied to the text it had.
\<close>

theorem run_split_text_and_format:
  assumes "old_text \<noteq> []" and "\<exists>r \<in> set p. py_in old_text (rtext r)"
  shows "\<exists>groups. deep_replace_text_in_paragraph p old_text new_text = Some (concat groups, Py_None)
    \<and> length groups = length p
    \<and> (\<forall>i < length p. groups ! i \<noteq> []
          \<and> paragraph_text (groups ! i) = py_replace (rtext (p ! i)) old_text new_text
          \<and> (\<forall>r' \<in> set (groups ! i). run_format r' = run_format (p ! i)))
    \<and> paragraph_text (concat groups) = concat (map (\<lambda>r. py_replace (rtext r) old_text new_text) p)
    \<and> (no_straddle old_text (map rtext p) \<longrightarrow>
          paragraph_text (concat groups) = py_replace (paragraph_text p) old_text new_text)"
proof -
  let ?groups = "map (split_run old_text new_text) p"
  have "deep_replace_text_in_paragraph p old_text new_text = Some (concat ?groups, Py_None)"
    using assms by (simp add: deep_replace_eq)
  moreover have "length ?groups = length p" by simp
  moreover have "\<forall>i < length p. ?groups ! i \<noteq> []
          \<and> paragraph_text (?groups ! i) = py_replace (rtext (p ! i)) old_text new_text
          \<and> (\<forall>r' \<in> set (?groups ! i). run_format r' = run_format (p ! i))"
    using assms(1) by (simp add: split_run_nonempty paragraph_text_def split_run_text split_run_format)
  moreover have per_run: "paragraph_text (concat ?groups)
      = concat (map (\<lambda>r. py_replace (rtext r) old_text new_text) p)"
    using assms(1) by (rule split_runs_text)
  moreover have "no_straddle old_text (map rtext p) \<longrightarrow>
      paragraph_text (concat ?groups) = py_replace (paragraph_text p) old_text new_text"
  proof
    assume "no_straddle old_text (map rtext p)"
    with assms(1) have "py_replace (concat (map rtext p)) old_text new_text
        = concat (map (\<lambda>t. py_replace t old_text new_text) (map rtext p))"
      by (rule py_replace_concat)
    with per_run show "paragraph_text (concat ?groups)
        = py_replace (paragraph_text p) old_text new_text"
      by (simp add: paragraph_text_def comp_def)
  qed
  ultimately show ?thesis by blast
qed

theorem run_split_text_and_format_witness:
  "''ab'' \<noteq> []
   \<and> (\<exists>r \<in> set [(new_run ''xaby'')\<lparr>bold := Some True\<rparr>, new_run ''ab''].
         py_in ''ab'' (rtext r))
   \<and> (\<exists>groups. deep_replace_text_in_paragraph
          [(new_run ''xaby'')\<lparr>bold := Some True\<rparr>, new_run ''ab''] ''ab'' ''Q''
          = Some (concat groups, Py_None)
    \<and> length groups = length [(new_run ''xaby'')\<lparr>bold := Some True\<rparr>, new_run ''ab'']
    \<and> (\<forall>i < length [(new_run ''xaby'')\<lparr>bold := Some True\<rparr>, new_run ''ab''].
          groups ! i \<noteq> []
          \<and> paragraph_text (groups ! i)
              = py_replace (rtext ([(new_run ''xaby'')\<lparr>bold := Some True\<rparr>, new_run ''ab''] ! i))
                  ''ab'' ''Q''
          \<and> (\<forall>r' \<in> set (groups ! i).
                run_format r' = run_format ([(new_run ''xaby'')\<lparr>bold := Some True\<rparr>, new_run ''ab''] ! i)))
    \<and> paragraph_text (concat groups)
        = concat (map (\<lambda>r. py_replace (rtext r) ''ab'' ''Q'')
            [(new_run ''xaby'')\<lparr>bold := Some True\<rparr>, new_run ''ab''])
    \<and> no_straddle ''ab'' (map rtext [(new_run ''xaby'')\<lparr>bold := Some True\<rparr>, new_run ''ab''])
    \<and> paragraph_text (concat groups)
        = py_replace (paragraph_text [(new_run ''xaby'')\<lparr>bold := Some True\<rparr>, new_run ''ab''])
            ''ab'' ''Q'')"
proof -
  have ne: "''ab'' \<noteq> []" by simp
  have some: "\<exists>r \<in> set [(new_run ''xaby'')\<lparr>bold := Some True\<rparr>, new_run ''ab''].
         py_in ''ab'' (rtext r)"
    by code_simp
  have inside: "no_straddle ''ab'' (map rtext [(new_run ''xaby'')\<lparr>bold := Some True\<rparr>, new_run ''ab''])"
    by code_simp
  from run_split_text_and_format [OF ne some, of "''Q''"] ne some inside show ?thesis by blast
qed

section \<open>The fallback for a match across runs\<close>

text \<open>
  Claim C2. For a paragraph and a rule with a non-empty \<open>old_text\<close>: when no run holds a
  whole occurrence but the paragraph's text does, the call removes every run and adds one
  new run; the paragraph's text is then \<^verbatim>\<open>str.replace\<close> applied to the text it had, and
  the paragraph has exactly one run.
\<close>

theorem straddling_match_fallback:
  assumes "old_text \<noteq> []" and "\<forall>r \<in> set p. \<not> py_in old_text (rtext r)"
    and "py_in old_text (paragraph_text p)"
  shows "\<exists>p'. deep_replace_text_in_paragraph p old_text new_text = Some (p', Py_None)
    \<and> p' = add_run [] (py_replace (paragraph_text p) old_text new_text)
    \<and> paragraph_text p' = py_replace (paragraph_text p) old_text new_text
    \<and> length p' = 1"
  using assms by (simp add: deep_replace_eq add_run_def paragraph_text_def new_run_def)

theorem straddling_match_fallback_witness:
  "''ooba'' \<noteq> []
   \<and> \<not> py_in ''ooba'' (rtext ((new_run ''foo'')\<lparr>bold := Some True\<rparr>))
   \<and> \<not> py_in ''ooba'' (rtext (new_run ''bar''))
   \<and> py_in ''ooba'' (paragraph_text [(new_run ''foo'')\<lparr>bold := Some True\<rparr>, new_run ''bar''])
   \<and> (\<exists>p'. deep_replace_text_in_paragraph
          [(new_run ''foo'')\<lparr>bold := Some True\<rparr>, new_run ''bar''] ''ooba'' ''X''
          = Some (p', Py_None)
    \<and> p' = add_run [] (py_replace
          (paragraph_text [(new_run ''foo'')\<lparr>bold := Some True\<rparr>, new_run ''bar'']) ''ooba'' ''X'')
    \<and> paragraph_text p' = py_replace
          (paragraph_text [(new_run ''foo'')\<lparr>bold := Some True\<rparr>, new_run ''bar'']) ''ooba'' ''X''
    \<and> length p' = 1)"
proof -
  have ne: "''ooba'' \<noteq> []" by simp
  have none: "\<forall>r \<in> set [(new_run ''foo'')\<lparr>bold := Some True\<rparr>, new_run ''bar''].
         \<not> py_in ''ooba'' (rtext r)"
    by code_simp
  have whole: "py_in ''ooba'' (paragraph_text [(new_run ''foo'')\<lparr>bold := Some True\<rparr>, new_run ''bar''])"
    by code_simp
  from none have each: "\<not> py_in ''ooba'' (rtext ((new_run ''foo'')\<lparr>bold := Some True\<rparr>))"
    "\<not> py_in ''ooba'' (rtext (new_run ''bar''))"
    by simp_all
  from straddling_match_fallback [OF ne none whole, of "''X''"] ne each whole
  show ?thesis by blast
qed

section \<open>Matches do not overlap\<close>

text \<open>
  Claim C3. For a non-empty \<open>old_text\<close>, the parts the scan makes of a run's text are
  literal segments with \<open>new_text\<close> between each two of them, such that: the literals with
  \<open>old_text\<close> between them are the run's text (the matches lie one after the other, none
  overlapping another); each match is the first occurrence in what follows the match
  before it (in a literal followed by \<open>old_text\<close>, the first occurrence is the one at
  the end); and the last literal holds no occurrence. On \<open>aaaa\<close> with the rule \<open>aa\<close> to
  \<open>b\<close> the scan finds two matches, and the paragraph's text becomes \<open>bb\<close>.
\<close>

theorem scan_matches_left_to_right_without_overlap:
  "(old_text \<noteq> [] \<longrightarrow>
     (\<exists>lits. split_loop t old_text new_text 0 [] = Some (interleave lits new_text)
        \<and> lits \<noteq> []
        \<and> concat (interleave lits old_text) = t
        \<and> (\<forall>l \<in> set (butlast lits). py_find (l @ old_text) old_text 0 = int (length l))
        \<and> \<not> py_in old_text (last lits)))
   \<and> split_loop ''aaaa'' ''aa'' ''b'' 0 [] = Some ['''', ''b'', '''', ''b'', '''']
   \<and> map_option (paragraph_text \<circ> fst)
        (deep_replace_text_in_paragraph [new_run ''aaaa''] ''aa'' ''b'') = Some ''bb''"
proof (intro conjI impI)
  assume ne: "old_text \<noteq> []"
  let ?lits = "literals_from t old_text 0"
  have "split_loop t old_text new_text 0 [] = Some (interleave ?lits new_text)"
    using split_loop_eq [OF ne, of t new_text 0 "[]"] by simp
  moreover have "?lits \<noteq> []" by (rule literals_from_nonempty)
  moreover have "concat (interleave ?lits old_text) = t"
    using concat_interleave_old [OF ne, of 0 t] by simp
  moreover have "\<forall>l \<in> set (butlast ?lits). py_find (l @ old_text) old_text 0 = int (length l)"
    using ne by (rule literals_leftmost) simp
  moreover have "\<not> py_in old_text (last ?lits)"
    using ne by (rule literals_last) simp
  ultimately show "\<exists>lits. split_loop t old_text new_text 0 [] = Some (interleave lits new_text)
        \<and> lits \<noteq> []
        \<and> concat (interleave lits old_text) = t
        \<and> (\<forall>l \<in> set (butlast lits). py_find (l @ old_text) old_text 0 = int (length l))
        \<and> \<not> py_in old_text (last lits)"
    by blast
next
  show "split_loop ''aaaa'' ''aa'' ''b'' 0 [] = Some ['''', ''b'', '''', ''b'', '''']"
    by code_simp
next
  show "map_option (paragraph_text \<circ> fst)
        (deep_replace_text_in_paragraph [new_run ''aaaa''] ''aa'' ''b'') = Some ''bb''"
    by code_simp
qed

theorem scan_matches_left_to_right_without_overlap_witness:
  "''aa'' \<noteq> [] \<and>
   (\<exists>lits. split_loop ''aaaa'' ''aa'' ''b'' 0 [] = Some (interleave lits ''b'')
        \<and> lits \<noteq> []
        \<and> concat (interleave lits ''aa'') = ''aaaa''
        \<and> (\<forall>l \<in> set (butlast lits). py_find (l @ ''aa'') ''aa'' 0 = int (length l))
        \<and> \<not> py_in ''aa'' (last lits))"
proof -
  have ne: "''aa'' \<noteq> []" by simp
  from scan_matches_left_to_right_without_overlap [of "''aa''" "''aaaa''" "''b''"]
  have "''aa'' \<noteq> [] \<longrightarrow>
     (\<exists>lits. split_loop ''aaaa'' ''aa'' ''b'' 0 [] = Some (interleave lits ''b'')
        \<and> lits \<noteq> []
        \<and> concat (interleave lits ''aa'') = ''aaaa''
        \<and> (\<forall>l \<in> set (butlast lits). py_find (l @ ''aa'') ''aa'' 0 = int (length l))
        \<and> \<not> py_in ''aa'' (last lits))"
    by (rule conjunct1)
  with ne show ?thesis by blast
qed

section \<open>What the call returns\<close>

text \<open>
  On a paragraph with the single run \<open>foo\<close> and the rule \<open>foo\<close> to \<open>x\<close> a replacement
  is made (the text becomes \<open>x\<close>), and the value returned is \<^verbatim>\<open>None\<close>, not \<^verbatim>\<open>True\<close>.
\<close>

theorem replace_returns_bool_counterexample:
  "map_option snd (deep_replace_text_in_paragraph [new_run ''foo''] ''foo'' ''x'') = Some Py_None
   \<and> map_option (paragraph_text \<circ> fst)
        (deep_replace_text_in_paragraph [new_run ''foo''] ''foo'' ''x'') = Some ''x''
   \<and> paragraph_text [new_run ''foo''] = ''foo''
   \<and> Py_None \<noteq> Py_Bool True"
  by code_simp

text \<open>
  Claim C4, amended. For every paragraph and every rule with a non-empty \<open>old_text\<close>, the
  call returns no value (Python's \<^verbatim>\<open>None\<close>), whether or not a replacement is made. The
  flag \<^verbatim>\<open>replaced_in_run\<close>, which the function keeps for itself, is true after the pass
  over the runs exactly when the text of some run holds \<open>old_text\<close>.
\<close>

theorem replace_returns_no_value:
  assumes "old_text \<noteq> []"
  shows "(\<exists>p'. deep_replace_text_in_paragraph p old_text new_text = Some (p', Py_None))
    \<and> (\<exists>p1. run_pass [0..<length p] old_text new_text p False
          = Some (p1, \<exists>r \<in> set p. py_in old_text (rtext r)))"
proof
  show "\<exists>p'. deep_replace_text_in_paragraph p old_text new_text = Some (p', Py_None)"
    using assms by (simp add: deep_replace_eq)
next
  have "run_pass [0..<length p] old_text new_text p False
      = Some (concat (map (split_run old_text new_text) p), \<exists>r \<in> set p. py_in old_text (rtext r))"
    using run_pass_eq [OF assms, of "[]" p new_text False] by simp
  then show "\<exists>p1. run_pass [0..<length p] old_text new_text p False
          = Some (p1, \<exists>r \<in> set p. py_in old_text (rtext r))"
    by blast
qed

theorem replace_returns_no_value_witness:
  "''foo'' \<noteq> []
   \<and> (\<exists>p'. deep_replace_text_in_paragraph [new_run ''a foo'', new_run ''bar''] ''foo'' ''x''
         = Some (p', Py_None))
   \<and> (\<exists>p1. run_pass [0..<length [new_run ''a foo'', new_run ''bar'']] ''foo'' ''x''
          [new_run ''a foo'', new_run ''bar''] False
          = Some (p1, \<exists>r \<in> set [new_run ''a foo'', new_run ''bar'']. py_in ''foo'' (rtext r)))"
proof -
  have ne: "''foo'' \<noteq> []" by simp
  from replace_returns_no_value [OF ne, of "[new_run ''a foo'', new_run ''bar'']" "''x''"] ne
  show ?thesis by blast
qed

section \<open>No occurrence, no change\<close>

text \<open>
  Claim C5. For a paragraph and a rule with a non-empty \<open>old_text\<close>: when \<open>old_text\<close> does
  not occur in the paragraph's text, the call leaves the list of runs as it was: the
  same runs, with the same texts and formats. \<^verbatim>\<open>process_word_file\<close>, which asks
  \<^verbatim>\<open>old_text in paragraph.text\<close> first, does not make the call then, and leaves the
  paragraph as it was.
\<close>

theorem no_occurrence_no_change:
  assumes "old_text \<noteq> []" and "\<not> py_in old_text (paragraph_text p)"
  shows "deep_replace_text_in_paragraph p old_text new_text = Some (p, Py_None)
    \<and> replace_in_paragraph [(old_text, new_text)] p = Some p"
proof
  have "\<not> (\<exists>r \<in> set p. py_in old_text (rtext r))"
    using assms(2) by (auto dest: py_in_paragraph_text)
  with assms show "deep_replace_text_in_paragraph p old_text new_text = Some (p, Py_None)"
    by (simp add: deep_replace_eq)
next
  from assms(2) show "replace_in_paragraph [(old_text, new_text)] p = Some p" by simp
qed

theorem no_occurrence_no_change_witness:
  "''zz'' \<noteq> []
   \<and> \<not> py_in ''zz'' (paragraph_text [(new_run ''foo'')\<lparr>bold := Some True\<rparr>, new_run ''bar''])
   \<and> deep_replace_text_in_paragraph [(new_run ''foo'')\<lparr>bold := Some True\<rparr>, new_run ''bar''] ''zz'' ''X''
       = Some ([(new_run ''foo'')\<lparr>bold := Some True\<rparr>, new_run ''bar''], Py_None)
   \<and> replace_in_paragraph [(''zz'', ''X'')] [(new_run ''foo'')\<lparr>bold := Some True\<rparr>, new_run ''bar'']
       = Some [(new_run ''foo'')\<lparr>bold := Some True\<rparr>, new_run ''bar'']"
proof -
  have ne: "''zz'' \<noteq> []" by simp
  have none: "\<not> py_in ''zz'' (paragraph_text [(new_run ''foo'')\<lparr>bold := Some True\<rparr>, new_run ''bar''])"
    by code_simp
  from no_occurrence_no_change [OF ne none, of "''X''"] ne none show ?thesis by blast
qed

section \<open>An empty replacement text\<close>

text \<open>
  On a paragraph with the single run \<open>abc\<close> and the rule \<open>b\<close> to the empty text, the
  paragraph has three runs afterwards, with the texts \<open>a\<close>, empty, \<open>c\<close>: the removed
  span is a run of its own.
\<close>

theorem empty_replacement_run_counterexample:
  "py_in ''b'' (rtext (new_run ''abc''))
   \<and> map_option (map rtext \<circ> fst)
        (deep_replace_text_in_paragraph [new_run ''abc''] ''b'' '''') = Some [''a'', '''', ''c'']"
  by code_simp

text \<open>
  Claim C6, amended. For a rule with a non-empty \<open>old_text\<close> and an empty \<open>new_text\<close>, and
  a paragraph in which some run holds \<open>old_text\<close>: a run that holds \<open>k \<ge> 1\<close> matches
  becomes \<open>2 * k + 1\<close> runs with its format, the literal segments with one run of empty
  text between each two of them, so every removed span is a new run with empty text. The
  literal segments are the pieces of the run's text between the matches: with \<open>old_text\<close>
  between each two of them they are the run's text, each match is the first occurrence
  after the match before it, and the last segment holds no occurrence; so \<open>k\<close>, one less
  than their number, is the number of matches. The
  first of them is the original run with the first segment (the text before the first
  match, which may be empty) as its text; the literal segments together are
  \<^verbatim>\<open>str.replace\<close> applied to the run's text. A run that does not hold \<open>old_text\<close> stays as
  it is.
\<close>

theorem empty_replacement_keeps_empty_runs:
  assumes "old_text \<noteq> []" and "\<exists>r \<in> set p. py_in old_text (rtext r)"
  shows "\<exists>groups. deep_replace_text_in_paragraph p old_text [] = Some (concat groups, Py_None)
    \<and> length groups = length p
    \<and> (\<forall>i < length p.
          (py_in old_text (rtext (p ! i)) \<longrightarrow>
             (\<exists>lits. groups ! i = map (\<lambda>seg. (p ! i)\<lparr>rtext := seg\<rparr>) (interleave lits [])
                \<and> 2 \<le> length lits
                \<and> length (groups ! i) = 2 * (length lits - 1) + 1
                \<and> hd lits = slice (rtext (p ! i)) 0 (nat (py_find (rtext (p ! i)) old_text 0))
                \<and> concat lits = py_replace (rtext (p ! i)) old_text []
                \<and> concat (interleave lits old_text) = rtext (p ! i)
                \<and> (\<forall>l \<in> set (butlast lits). py_find (l @ old_text) old_text 0 = int (length l))
                \<and> \<not> py_in old_text (last lits)))
          \<and> (\<not> py_in old_text (rtext (p ! i)) \<longrightarrow> groups ! i = [p ! i]))"
proof -
  let ?groups = "map (split_run old_text []) p"
  have "deep_replace_text_in_paragraph p old_text [] = Some (concat ?groups, Py_None)"
    using assms by (simp add: deep_replace_eq)
  moreover have "length ?groups = length p" by simp
  moreover have "\<forall>i < length p.
          (py_in old_text (rtext (p ! i)) \<longrightarrow>
             (\<exists>lits. ?groups ! i = map (\<lambda>seg. (p ! i)\<lparr>rtext := seg\<rparr>) (interleave lits [])
                \<and> 2 \<le> length lits
                \<and> length (?groups ! i) = 2 * (length lits - 1) + 1
                \<and> hd lits = slice (rtext (p ! i)) 0 (nat (py_find (rtext (p ! i)) old_text 0))
                \<and> concat lits = py_replace (rtext (p ! i)) old_text []
                \<and> concat (interleave lits old_text) = rtext (p ! i)
                \<and> (\<forall>l \<in> set (butlast lits). py_find (l @ old_text) old_text 0 = int (length l))
                \<and> \<not> py_in old_text (last lits)))
          \<and> (\<not> py_in old_text (rtext (p ! i)) \<longrightarrow> ?groups ! i = [p ! i])"
  proof (intro allI impI conjI)
    fix i assume i: "i < length p" and "\<not> py_in old_text (rtext (p ! i))"
    then show "?groups ! i = [p ! i]" by (simp add: split_run_unchanged)
  next
    fix i assume i: "i < length p" and inn: "py_in old_text (rtext (p ! i))"
    let ?lits = "literals_from (rtext (p ! i)) old_text 0"
    have g: "?groups ! i = map (\<lambda>seg. (p ! i)\<lparr>rtext := seg\<rparr>) (interleave ?lits [])"
      using i inn by (simp add: split_run_changed)
    moreover have "2 \<le> length ?lits" using assms(1) inn by (rule literals_from_two)
    moreover have "length (?groups ! i) = 2 * (length ?lits - 1) + 1"
      unfolding g by (simp add: length_interleave literals_from_nonempty)
    moreover have "hd ?lits = slice (rtext (p ! i)) 0 (nat (py_find (rtext (p ! i)) old_text 0))"
      using assms(1) inn by (rule literals_from_two)
    moreover have "concat ?lits = py_replace (rtext (p ! i)) old_text []"
      using concat_interleave_literals [OF assms(1), of 0 "rtext (p ! i)" "[]"]
      by (simp add: concat_interleave_Nil)
    moreover have "concat (interleave ?lits old_text) = rtext (p ! i)"
      using concat_interleave_old [OF assms(1), of 0 "rtext (p ! i)"] by simp
    moreover have "\<forall>l \<in> set (butlast ?lits). py_find (l @ old_text) old_text 0 = int (length l)"
      using assms(1) by (rule literals_leftmost) simp
    moreover have "\<not> py_in old_text (last ?lits)"
      using assms(1) by (rule literals_last) simp
    ultimately show "\<exists>lits. ?groups ! i = map (\<lambda>seg. (p ! i)\<lparr>rtext := seg\<rparr>) (interleave lits [])
                \<and> 2 \<le> length lits
                \<and> length (?groups ! i) = 2 * (length lits - 1) + 1
                \<and> hd lits = slice (rtext (p ! i)) 0 (nat (py_find (rtext (p ! i)) old_text 0))
                \<and> concat lits = py_replace (rtext (p ! i)) old_text []
                \<and> concat (interleave lits old_text) = rtext (p ! i)
                \<and> (\<forall>l \<in> set (butlast lits). py_find (l @ old_text) old_text 0 = int (length l))
                \<and> \<not> py_in old_text (last lits)"
      by blast
  qed
  ultimately show ?thesis by blast
qed

theorem empty_replacement_keeps_empty_runs_witness:
  "''b'' \<noteq> []
   \<and> (\<exists>r \<in> set [new_run ''abcbd'', new_run ''xy'']. py_in ''b'' (rtext r))
   \<and> (\<exists>groups. deep_replace_text_in_paragraph [new_run ''abcbd'', new_run ''xy''] ''b'' []
          = Some (concat groups, Py_None)
    \<and> length groups = length [new_run ''abcbd'', new_run ''xy'']
    \<and> (\<forall>i < length [new_run ''abcbd'', new_run ''xy''].
          (py_in ''b'' (rtext ([new_run ''abcbd'', new_run ''xy''] ! i)) \<longrightarrow>
             (\<exists>lits. groups ! i = map (\<lambda>seg. ([new_run ''abcbd'', new_run ''xy''] ! i)\<lparr>rtext := seg\<rparr>)
                                     (interleave lits [])
                \<and> 2 \<le> length lits
                \<and> length (groups ! i) = 2 * (length lits - 1) + 1
                \<and> hd lits = slice (rtext ([new_run ''abcbd'', new_run ''xy''] ! i)) 0
                     (nat (py_find (rtext ([new_run ''abcbd'', new_run ''xy''] ! i)) ''b'' 0))
                \<and> concat lits = py_replace (rtext ([new_run ''abcbd'', new_run ''xy''] ! i)) ''b'' []
                \<and> concat (interleave lits ''b'') = rtext ([new_run ''abcbd'', new_run ''xy''] ! i)
                \<and> (\<forall>l \<in> set (butlast lits). py_find (l @ ''b'') ''b'' 0 = int (length l))
                \<and> \<not> py_in ''b'' (last lits)))
          \<and> (\<not> py_in ''b'' (rtext ([new_run ''abcbd'', new_run ''xy''] ! i)) \<longrightarrow>
                groups ! i = [[new_run ''abcbd'', new_run ''xy''] ! i])))
   \<and> map_option (map rtext \<circ> fst)
        (deep_replace_text_in_paragraph [new_run ''abcbd'', new_run ''xy''] ''b'' [])
       = Some [''a'', [], ''c'', [], ''d'', ''xy'']"
proof -
  have ne: "''b'' \<noteq> []" by simp
  have some: "\<exists>r \<in> set [new_run ''abcbd'', new_run ''xy'']. py_in ''b'' (rtext r)"
    by code_simp
  have runs: "map_option (map rtext \<circ> fst)
        (deep_replace_text_in_paragraph [new_run ''abcbd'', new_run ''xy''] ''b'' [])
       = Some [''a'', [], ''c'', [], ''d'', ''xy'']"
    by code_simp
  from empty_replacement_keeps_empty_runs [OF ne some] ne some runs show ?thesis by blast
qed

section \<open>Termination of the scan\<close>

text \<open>
  Claim C7. For a rule whose \<open>old_text\<close> is not empty, the scan loop of
  \<^verbatim>\<open>deep_replace_text_in_paragraph\<close> returns, from every scan position and with any
  parts already collected. It adds \<open>2 * k + 1\<close> parts, where \<open>k\<close> is the number of matches,
  and the \<open>k\<close> matches lie one after the other in the text that was still to scan:
  \<open>k * len(old_text)\<close> is at most the length of that text, so the number of iterations is
  bounded by the size of the run's text. The whole call returns as well, on every
  paragraph.
\<close>

theorem split_loop_terminates:
  "old_text \<noteq> [] \<Longrightarrow>
   (\<exists>parts' k. split_loop t old_text new_text start parts = Some parts'
      \<and> length parts' = length parts + 2 * k + 1
      \<and> k * length old_text \<le> length t - start)
   \<and> (\<exists>p' v. deep_replace_text_in_paragraph p old_text new_text = Some (p', v))"
proof
  assume ne: "old_text \<noteq> []"
  let ?ls = "literals_from t old_text start"
  have "split_loop t old_text new_text start parts = Some (parts @ interleave ?ls new_text)"
    using ne by (rule split_loop_eq)
  moreover have "length (parts @ interleave ?ls new_text) = length parts + 2 * (length ?ls - 1) + 1"
    by (simp add: length_interleave literals_from_nonempty)
  moreover have "(length ?ls - 1) * length old_text \<le> length t - start"
    using ne by (rule literals_from_count)
  ultimately show "\<exists>parts' k. split_loop t old_text new_text start parts = Some parts'
      \<and> length parts' = length parts + 2 * k + 1
      \<and> k * length old_text \<le> length t - start"
    by blast
next
  assume ne: "old_text \<noteq> []"
  then show "\<exists>p' v. deep_replace_text_in_paragraph p old_text new_text = Some (p', v)"
    by (simp add: deep_replace_eq)
qed

theorem split_loop_terminates_witness:
  "''aa'' \<noteq> [] \<and>
   (\<exists>parts' k. split_loop ''xaayaaa'' ''aa'' ''b'' 0 [] = Some parts'
      \<and> length parts' = length ([] :: string list) + 2 * k + 1
      \<and> k * length ''aa'' \<le> length ''xaayaaa'' - 0)
   \<and> (\<exists>p' v. deep_replace_text_in_paragraph [new_run ''xaayaaa''] ''aa'' ''b'' = Some (p', v))"
proof -
  have ne: "''aa'' \<noteq> []" by simp
  from split_loop_terminates [OF ne, of "''xaayaaa''" "''b''" 0 "[]" "[new_run ''xaayaaa'']"] ne
  show ?thesis by blast
qed

section \<open>The font pass\<close>

lemma set_font_twice: "set_font n (set_font n r) = set_font n r"
  by (simp add: set_font_def)

lemma set_font_paragraphs_twice:
  "set_font_paragraphs n (set_font_paragraphs n ps) = set_font_paragraphs n ps"
  by (simp add: set_font_paragraphs_def comp_def set_font_twice)

lemma set_font_paragraphs_font:
  "p \<in> set (set_font_paragraphs n ps) \<Longrightarrow> r \<in> set p \<Longrightarrow>
   font_name r = Some ''Calibri'' \<and> font_size r = Some (Pt n)"
  by (auto simp: set_font_paragraphs_def set_font_def)

lemma set_font_paragraphs_rest:
  "map (map other_attributes) (set_font_paragraphs n ps) = map (map other_attributes) ps"
  by (simp add: set_font_paragraphs_def comp_def set_font_def other_attributes_def)

lemma change_font_twice: "change_font (change_font doc) = change_font doc"
  by (simp add: change_font_def comp_def set_font_paragraphs_twice)

text \<open>
  Claim C8. After the font pass every run of every body paragraph and of every paragraph
  of every cell of every table has the font Calibri at 12 points, and every run of every
  paragraph of every section's footer has the font Calibri at 8 points; the pass keeps
  the paragraphs and runs of the body, of the tables (table by table, row by row, cell
  by cell) and of the footers as they are in everything but the font (same texts, bold,
  italic, underline, style, in the same order); and a second pass gives the document the
  first one gave.
\<close>

theorem change_font_regions_and_idempotent:
  "(\<forall>p \<in> set (paragraphs (change_font doc)). \<forall>r \<in> set p.
      font_name r = Some ''Calibri'' \<and> font_size r = Some (Pt 12))
   \<and> (\<forall>t \<in> set (tables (change_font doc)). \<forall>row \<in> set (rows t). \<forall>c \<in> set row.
        \<forall>p \<in> set c. \<forall>r \<in> set p.
          font_name r = Some ''Calibri'' \<and> font_size r = Some (Pt 12))
   \<and> (\<forall>s \<in> set (sections (change_font doc)). \<forall>p \<in> set (footer s). \<forall>r \<in> set p.
        font_name r = Some ''Calibri'' \<and> font_size r = Some (Pt 8))
   \<and> map (map other_attributes) (paragraphs (change_font doc))
       = map (map other_attributes) (paragraphs doc)
   \<and> map (\<lambda>t. map (map (map (map other_attributes))) (rows t)) (tables (change_font doc))
       = map (\<lambda>t. map (map (map (map other_attributes))) (rows t)) (tables doc)
   \<and> map (\<lambda>s. map (map other_attributes) (footer s)) (sections (change_font doc))
       = map (\<lambda>s. map (map other_attributes) (footer s)) (sections doc)
   \<and> change_font (change_font doc) = change_font doc"
proof (intro conjI ballI)
  fix p r assume "p \<in> set (paragraphs (change_font doc))" and "r \<in> set p"
  then have "font_name r = Some ''Calibri'' \<and> font_size r = Some (Pt 12)"
    by (intro set_font_paragraphs_font [of p 12 "paragraphs doc"]) (simp_all add: change_font_def)
  then show "font_name r = Some ''Calibri''" and "font_size r = Some (Pt 12)" by simp_all
next
  fix t row c p r
  assume t: "t \<in> set (tables (change_font doc))" and row: "row \<in> set (rows t)"
    and c: "c \<in> set row" and p: "p \<in> set c" and r: "r \<in> set p"
  from t obtain t0 where "t = t0\<lparr>rows := map (map (set_font_paragraphs 12)) (rows t0)\<rparr>"
    by (auto simp: change_font_def)
  with row obtain row0 where "row = map (set_font_paragraphs 12) row0" by auto
  with c obtain c0 where "c = set_font_paragraphs 12 c0" by auto
  with p r have "font_name r = Some ''Calibri'' \<and> font_size r = Some (Pt 12)"
    by (intro set_font_paragraphs_font [of p 12 c0]) simp_all
  then show "font_name r = Some ''Calibri''" and "font_size r = Some (Pt 12)" by simp_all
next
  fix s p r
  assume s: "s \<in> set (sections (change_font doc))" and p: "p \<in> set (footer s)" and r: "r \<in> set p"
  from s obtain s0 where "s = s0\<lparr>footer := set_font_paragraphs 8 (footer s0)\<rparr>"
    by (auto simp: change_font_def)
  with p r have "font_name r = Some ''Calibri'' \<and> font_size r = Some (Pt 8)"
    by (intro set_font_paragraphs_font [of p 8 "footer s0"]) simp_all
  then show "font_name r = Some ''Calibri''" and "font_size r = Some (Pt 8)" by simp_all
next
  show "map (map other_attributes) (paragraphs (change_font doc))
       = map (map other_attributes) (paragraphs doc)"
    by (simp add: change_font_def set_font_paragraphs_rest)
next
  show "map (\<lambda>t. map (map (map (map other_attributes))) (rows t)) (tables (change_font doc))
       = map (\<lambda>t. map (map (map (map other_attributes))) (rows t)) (tables doc)"
    by (simp add: change_font_def comp_def set_font_paragraphs_rest)
next
  show "map (\<lambda>s. map (map other_attributes) (footer s)) (sections (change_font doc))
       = map (\<lambda>s. map (map other_attributes) (footer s)) (sections doc)"
    by (simp add: change_font_def comp_def set_font_paragraphs_rest)
next
  show "change_font (change_font doc) = change_font doc" by (rule change_font_twice)
qed

theorem change_font_regions_and_idempotent_witness:
  "paragraphs (change_font
        \<lparr>paragraphs = [[(new_run ''Body'')\<lparr>font_name := Some ''Times'', font_size := Some (Pt 12)\<rparr>]],
         tables = [\<lparr>rows = [[[[(new_run ''Cell'')\<lparr>bold := Some True, font_size := Some (Pt 9)\<rparr>]]]]\<rparr>],
         sections = [\<lparr>footer = [[(new_run ''Foot'')\<lparr>font_name := Some ''Times'',
                                                         font_size := Some (Pt 10)\<rparr>]]\<rparr>]\<rparr>)
     = [[(new_run ''Body'')\<lparr>font_name := Some ''Calibri'', font_size := Some (Pt 12)\<rparr>]]
   \<and> tables (change_font
        \<lparr>paragraphs = [[(new_run ''Body'')\<lparr>font_name := Some ''Times'', font_size := Some (Pt 12)\<rparr>]],
         tables = [\<lparr>rows = [[[[(new_run ''Cell'')\<lparr>bold := Some True, font_size := Some (Pt 9)\<rparr>]]]]\<rparr>],
         sections = [\<lparr>footer = [[(new_run ''Foot'')\<lparr>font_name := Some ''Times'',
                                                         font_size := Some (Pt 10)\<rparr>]]\<rparr>]\<rparr>)
     = [\<lparr>rows = [[[[(new_run ''Cell'')\<lparr>bold := Some True, font_name := Some ''Calibri'',
                                       font_size := Some (Pt 12)\<rparr>]]]]\<rparr>]
   \<and> sections (change_font
        \<lparr>paragraphs = [[(new_run ''Body'')\<lparr>font_name := Some ''Times'', font_size := Some (Pt 12)\<rparr>]],
         tables = [\<lparr>rows = [[[[(new_run ''Cell'')\<lparr>bold := Some True, font_size := Some (Pt 9)\<rparr>]]]]\<rparr>],
         sections = [\<lparr>footer = [[(new_run ''Foot'')\<lparr>font_name := Some ''Times'',
                                                         font_size := Some (Pt 10)\<rparr>]]\<rparr>]\<rparr>)
     = [\<lparr>footer = [[(new_run ''Foot'')\<lparr>font_name := Some ''Calibri'', font_size := Some (Pt 8)\<rparr>]]\<rparr>]
   \<and> change_font (change_font
        \<lparr>paragraphs = [[(new_run ''Body'')\<lparr>font_name := Some ''Times'', font_size := Some (Pt 12)\<rparr>]],
         tables = [\<lparr>rows = [[[[(new_run ''Cell'')\<lparr>bold := Some True, font_size := Some (Pt 9)\<rparr>]]]]\<rparr>],
         sections = [\<lparr>footer = [[(new_run ''Foot'')\<lparr>font_name := Some ''Times'',
                                                         font_size := Some (Pt 10)\<rparr>]]\<rparr>]\<rparr>)
     = change_font
        \<lparr>paragraphs = [[(new_run ''Body'')\<lparr>font_name := Some ''Times'', font_size := Some (Pt 12)\<rparr>]],
         tables = [\<lparr>rows = [[[[(new_run ''Cell'')\<lparr>bold := Some True, font_size := Some (Pt 9)\<rparr>]]]]\<rparr>],
         sections = [\<lparr>footer = [[(new_run ''Foot'')\<lparr>font_name := Some ''Times'',
                                                         font_size := Some (Pt 10)\<rparr>]]\<rparr>]\<rparr>"
proof -
  let ?d = "\<lparr>paragraphs = [[(new_run ''Body'')\<lparr>font_name := Some ''Times'', font_size := Some (Pt 12)\<rparr>]],
         tables = [\<lparr>rows = [[[[(new_run ''Cell'')\<lparr>bold := Some True, font_size := Some (Pt 9)\<rparr>]]]]\<rparr>],
         sections = [\<lparr>footer = [[(new_run ''Foot'')\<lparr>font_name := Some ''Times'',
                                                         font_size := Some (Pt 10)\<rparr>]]\<rparr>]\<rparr>"
  note all = change_font_regions_and_idempotent [of ?d]
  have shape_body: "\<exists>r. paragraphs (change_font ?d) = [[r]]"
    by (simp add: change_font_def set_font_paragraphs_def)
  then obtain r where r: "paragraphs (change_font ?d) = [[r]]" by blast
  from all have "\<forall>p \<in> set (paragraphs (change_font ?d)). \<forall>r \<in> set p.
      font_name r = Some ''Calibri'' \<and> font_size r = Some (Pt 12)"
    by (rule conjunct1)
  with r have body_font: "font_name r = Some ''Calibri'' \<and> font_size r = Some (Pt 12)" by simp
  from all have "map (map other_attributes) (paragraphs (change_font ?d))
       = map (map other_attributes) (paragraphs ?d)"
    by blast
  with r have body_rest: "other_attributes r = other_attributes (new_run ''Body'')"
    by (simp add: other_attributes_def new_run_def)
  from body_font body_rest
  have body: "r = (new_run ''Body'')\<lparr>font_name := Some ''Calibri'', font_size := Some (Pt 12)\<rparr>"
    by (cases r) (simp add: other_attributes_def new_run_def)
  have shape_tab: "\<exists>c. tables (change_font ?d) = [\<lparr>rows = [[[[c]]]]\<rparr>]"
    by (simp add: change_font_def set_font_paragraphs_def)
  then obtain c where c: "tables (change_font ?d) = [\<lparr>rows = [[[[c]]]]\<rparr>]" by blast
  from all have "\<forall>t \<in> set (tables (change_font ?d)). \<forall>row \<in> set (rows t). \<forall>c \<in> set row.
        \<forall>p \<in> set c. \<forall>r \<in> set p.
          font_name r = Some ''Calibri'' \<and> font_size r = Some (Pt 12)"
    by blast
  with c have cell_font: "font_name c = Some ''Calibri'' \<and> font_size c = Some (Pt 12)" by simp
  from all have "map (\<lambda>t. map (map (map (map other_attributes))) (rows t)) (tables (change_font ?d))
       = map (\<lambda>t. map (map (map (map other_attributes))) (rows t)) (tables ?d)"
    by blast
  with c have cell_rest: "other_attributes c = other_attributes ((new_run ''Cell'')\<lparr>bold := Some True\<rparr>)"
    by (simp add: other_attributes_def new_run_def)
  from cell_font cell_rest
  have cell: "c = (new_run ''Cell'')\<lparr>bold := Some True, font_name := Some ''Calibri'',
                                       font_size := Some (Pt 12)\<rparr>"
    by (cases c) (simp add: other_attributes_def new_run_def)
  have shape_foot: "\<exists>r. sections (change_font ?d) = [\<lparr>footer = [[r]]\<rparr>]"
    by (simp add: change_font_def set_font_paragraphs_def)
  then obtain q where q: "sections (change_font ?d) = [\<lparr>footer = [[q]]\<rparr>]" by blast
  from all have "\<forall>s \<in> set (sections (change_font ?d)). \<forall>p \<in> set (footer s). \<forall>r \<in> set p.
        font_name r = Some ''Calibri'' \<and> font_size r = Some (Pt 8)"
    by blast
  with q have foot_font: "font_name q = Some ''Calibri'' \<and> font_size q = Some (Pt 8)" by simp
  from all have "map (\<lambda>s. map (map other_attributes) (footer s)) (sections (change_font ?d))
       = map (\<lambda>s. map (map other_attributes) (footer s)) (sections ?d)"
    by blast
  with q have foot_rest: "other_attributes q = other_attributes (new_run ''Foot'')"
    by (simp add: other_attributes_def new_run_def)
  from foot_font foot_rest
  have foot: "q = (new_run ''Foot'')\<lparr>font_name := Some ''Calibri'', font_size := Some (Pt 8)\<rparr>"
    by (cases q) (simp add: other_attributes_def new_run_def)
  from all have idem: "change_font (change_font ?d) = change_font ?d" by blast
  from r body c cell q foot idem show ?thesis by simp
qed

section \<open>The derived file name\<close>

lemma py_in_Nil: "py_in [] s"
  unfolding py_in_iff by (intro exI [of _ "[]"] exI [of _ s]) simp

lemma py_replace_absent: "\<not> py_in old_text s \<Longrightarrow> py_replace s old_text new_text = s"
  by (cases "old_text = []") (auto simp: py_in_Nil py_replace_not_in)

lemma new_filename_in_order: "new_filename file_name rules = rules_in_order file_name rules"
  by (induction file_name rules rule: new_filename.induct) (simp_all add: rules_in_order_def)

lemma process_file_name_in_order:
  "process_file_name file_name rules = rules_in_order file_name rules"
  by (induction file_name rules rule: process_file_name.induct)
    (simp_all add: rules_in_order_def py_replace_absent)

lemma new_filename_append:
  "new_filename file_name (rs1 @ rs2) = new_filename (new_filename file_name rs1) rs2"
  by (induction file_name rs1 rule: new_filename.induct) simp_all

lemma replace_in_paragraph_append:
  "replace_in_paragraph (rs1 @ rs2) p
     = (case replace_in_paragraph rs1 p of None \<Rightarrow> None | Some p' \<Rightarrow> replace_in_paragraph rs2 p')"
  by (induction rs1 p rule: replace_in_paragraph.induct) (simp_all split: option.split)

text \<open>
  Claim C9. For every file name and every list of rules, the name under which
  \<^verbatim>\<open>process_word_file\<close> saves, and the name \<^verbatim>\<open>process_file_name\<close> returns, are the
  original name with the rules' substitutions applied one after the other in the order
  of the list; the rule \<open>Draft\<close> to \<open>Final\<close> turns \<open>Draft - Jan.docx\<close> into
  \<open>Final - Jan.docx\<close>. The rules are applied to a paragraph in the same order: for the
  file name as for a paragraph, applying a list of rules followed by a second list is
  applying the first list, then the second to what the first gave.
\<close>

theorem filename_rules_in_list_order:
  "new_filename file_name rules = rules_in_order file_name rules
   \<and> process_file_name file_name rules = rules_in_order file_name rules
   \<and> new_filename ''Draft - Jan.docx'' [(''Draft'', ''Final'')] = ''Final - Jan.docx''
   \<and> process_file_name ''Draft - Jan.docx'' [(''Draft'', ''Final'')] = ''Final - Jan.docx''
   \<and> new_filename file_name (rs1 @ rs2) = new_filename (new_filename file_name rs1) rs2
   \<and> replace_in_paragraph (rs1 @ rs2) p
       = (case replace_in_paragraph rs1 p of None \<Rightarrow> None | Some p' \<Rightarrow> replace_in_paragraph rs2 p')"
proof (intro conjI)
  show "new_filename file_name rules = rules_in_order file_name rules"
    by (rule new_filename_in_order)
  show "process_file_name file_name rules = rules_in_order file_name rules"
    by (rule process_file_name_in_order)
  show "new_filename ''Draft - Jan.docx'' [(''Draft'', ''Final'')] = ''Final - Jan.docx''"
    by code_simp
  show "process_file_name ''Draft - Jan.docx'' [(''Draft'', ''Final'')] = ''Final - Jan.docx''"
    by code_simp
  show "new_filename file_name (rs1 @ rs2) = new_filename (new_filename file_name rs1) rs2"
    by (rule new_filename_append)
  show "replace_in_paragraph (rs1 @ rs2) p
       = (case replace_in_paragraph rs1 p of None \<Rightarrow> None | Some p' \<Rightarrow> replace_in_paragraph rs2 p')"
    by (rule replace_in_paragraph_append)
qed

section \<open>The batch\<close>

lemma replace_in_paragraph_returns:
  "\<forall>r \<in> set replacements. fst r \<noteq> [] \<Longrightarrow> \<exists>p'. replace_in_paragraph replacements p = Some p'"
proof (induction replacements arbitrary: p)
  case Nil
  show ?case by simp
next
  case (Cons rule replacements)
  obtain old_text new_text where rule: "rule = (old_text, new_text)" by (cases rule)
  with Cons.prems have ne: "old_text \<noteq> []" by simp
  from Cons.prems have rest: "\<forall>r \<in> set replacements. fst r \<noteq> []" by simp
  show ?case
  proof (cases "py_in old_text (paragraph_text p)")
    case False
    then show ?thesis using Cons.IH [OF rest, of p] by (simp add: rule)
  next
    case True
    obtain p1 where "deep_replace_text_in_paragraph p old_text new_text = Some (p1, Py_None)"
      using ne by (simp add: deep_replace_eq)
    then show ?thesis using True Cons.IH [OF rest, of p1] by (simp add: rule)
  qed
qed

lemma replace_in_paragraphs_returns:
  assumes "\<forall>r \<in> set replacements. fst r \<noteq> []"
  shows "(\<exists>e. replace_in_paragraphs raises replacements ps = Some (Inl e)
            \<and> (\<exists>p \<in> set ps. raises replacements p = Some e))
       \<or> (\<exists>ps'. replace_in_paragraphs raises replacements ps = Some (Inr ps')
            \<and> (\<forall>p \<in> set ps. raises replacements p = None))"
proof (induction ps)
  case Nil
  show ?case by simp
next
  case (Cons p ps)
  show ?case
  proof (cases "raises replacements p")
    case (Some e)
    then show ?thesis by auto
  next
    case None
    from assms obtain p' where p': "replace_in_paragraph replacements p = Some p'"
      using replace_in_paragraph_returns by blast
    from Cons show ?thesis
    proof
      assume "\<exists>e. replace_in_paragraphs raises replacements ps = Some (Inl e)
            \<and> (\<exists>p \<in> set ps. raises replacements p = Some e)"
      then show ?thesis using None p' by auto
    next
      assume "\<exists>ps'. replace_in_paragraphs raises replacements ps = Some (Inr ps')
            \<and> (\<forall>p \<in> set ps. raises replacements p = None)"
      then show ?thesis using None p' by auto
    qed
  qed
qed

text \<open>
  What \<^verbatim>\<open>process_word_file\<close> gives for one file, when the rules have a non-empty
  \<open>old_text\<close>: it returns; either nothing is written and the line is the error line of that
  file, with the exception raised by loading, by rewriting a paragraph of the document,
  or by saving; or the new file is written under the derived name and the line names it.
\<close>

lemma process_word_file_outcome:
  assumes "\<forall>r \<in> set replacements. fst r \<noteq> []"
  shows "\<exists>line w. process_word_file env f replacements destination_folder = Some (line, w)
    \<and> (w = None \<longrightarrow>
         (\<exists>e. line = Error_Processing_File f e
            \<and> (load env f = Inl e
               \<or> (\<exists>doc. load env f = Inr doc
                     \<and> (\<exists>p \<in> set (paragraphs doc). mutation_error env replacements p = Some e))
               \<or> (\<exists>doc'. save env (path_join env destination_folder
                                       (new_filename (name_of env f) replacements)) doc' = Some e))))
    \<and> (\<forall>x. w = Some x \<longrightarrow>
         line = Info_Created (fst x)
         \<and> fst x = path_join env destination_folder (new_filename (name_of env f) replacements)
         \<and> save env (fst x) (snd x) = None)"
proof (cases "load env f")
  case (Inl e)
  then show ?thesis by (simp add: process_word_file_def)
next
  case (Inr doc)
  let ?path = "path_join env destination_folder (new_filename (name_of env f) replacements)"
  from replace_in_paragraphs_returns [OF assms, of "mutation_error env" "paragraphs doc"]
  show ?thesis
  proof
    assume "\<exists>e. replace_in_paragraphs (mutation_error env) replacements (paragraphs doc) = Some (Inl e)
            \<and> (\<exists>p \<in> set (paragraphs doc). mutation_error env replacements p = Some e)"
    then obtain e where e: "replace_in_paragraphs (mutation_error env) replacements (paragraphs doc)
        = Some (Inl e)" "\<exists>p \<in> set (paragraphs doc). mutation_error env replacements p = Some e"
      by blast
    with Inr have "process_word_file env f replacements destination_folder
        = Some (Error_Processing_File f e, None)"
      by (simp add: process_word_file_def)
    with Inr e(2) show ?thesis by auto
  next
    assume "\<exists>ps'. replace_in_paragraphs (mutation_error env) replacements (paragraphs doc) = Some (Inr ps')
            \<and> (\<forall>p \<in> set (paragraphs doc). mutation_error env replacements p = None)"
    then obtain ps where ps: "replace_in_paragraphs (mutation_error env) replacements (paragraphs doc)
        = Some (Inr ps)"
      by blast
    show ?thesis
    proof (cases "save env ?path (doc\<lparr>paragraphs := ps\<rparr>)")
      case None
      with Inr ps show ?thesis by (simp add: process_word_file_def Let_def)
    next
      case (Some e)
      with Inr ps have "process_word_file env f replacements destination_folder
          = Some (Error_Processing_File f e, None)"
        by (simp add: process_word_file_def Let_def)
      with Some show ?thesis by auto
    qed
  qed
qed

lemma process_word_file_returns:
  assumes "\<forall>r \<in> set replacements. fst r \<noteq> []"
  shows "\<exists>line w. process_word_file env f replacements destination_folder = Some (line, w)"
  using process_word_file_outcome [OF assms, of env f destination_folder] by blast

lemma completed_loop_result:
  assumes "\<forall>r \<in> set replacements. fst r \<noteq> []"
  shows "\<exists>log' written'.
    completed_loop env replacements destination_folder total_files completion
        completed (files_processed, log, written)
      = Some (files_processed + length (filter (\<lambda>f. pool_error env f = None) completion),
              log @ log', written @ written')
    \<and> (\<forall>f \<in> set completion. pool_error env f = None \<longrightarrow>
          (\<exists>line w. process_word_file env f replacements destination_folder = Some (line, w)
             \<and> line \<in> set log' \<and> (\<forall>x. w = Some x \<longrightarrow> x \<in> set written')))
    \<and> (\<forall>f \<in> set completion. \<forall>e. pool_error env f = Some e \<longrightarrow>
          Error_Processing_Name (name_of env f) e \<in> set log')"
proof (induction completion arbitrary: completed files_processed log written)
  case Nil
  show ?case by simp
next
  case (Cons f0 rest)
  show ?case
  proof (cases "pool_error env f0")
    case (Some e)
    from Cons.IH [of "completed + 1" files_processed "log @ [Error_Processing_Name (name_of env f0) e]" written]
    obtain log' written' where
      res: "completed_loop env replacements destination_folder total_files rest
          (completed + 1) (files_processed, log @ [Error_Processing_Name (name_of env f0) e], written)
        = Some (files_processed + length (filter (\<lambda>f. pool_error env f = None) rest),
              (log @ [Error_Processing_Name (name_of env f0) e]) @ log', written @ written')"
      and ok: "\<forall>f \<in> set rest. pool_error env f = None \<longrightarrow>
          (\<exists>line w. process_word_file env f replacements destination_folder = Some (line, w)
             \<and> line \<in> set log' \<and> (\<forall>x. w = Some x \<longrightarrow> x \<in> set written'))"
      and bad: "\<forall>f \<in> set rest. \<forall>e. pool_error env f = Some e \<longrightarrow>
          Error_Processing_Name (name_of env f) e \<in> set log'"
      by blast
    let ?log = "Error_Processing_Name (name_of env f0) e # log'"
    have "completed_loop env replacements destination_folder total_files
        (f0 # rest) completed (files_processed, log, written)
      = Some (files_processed + length (filter (\<lambda>f. pool_error env f = None) (f0 # rest)),
              log @ ?log, written @ written')"
      using Some res by simp
    moreover have "\<forall>f \<in> set (f0 # rest). pool_error env f = None \<longrightarrow>
          (\<exists>line w. process_word_file env f replacements destination_folder = Some (line, w)
             \<and> line \<in> set ?log \<and> (\<forall>x. w = Some x \<longrightarrow> x \<in> set written'))"
      using Some ok by auto
    moreover have "\<forall>f \<in> set (f0 # rest). \<forall>e. pool_error env f = Some e \<longrightarrow>
          Error_Processing_Name (name_of env f) e \<in> set ?log"
      using Some bad by auto
    ultimately show ?thesis by blast
  next
    case None
    from assms obtain line w where
      pwf: "process_word_file env f0 replacements destination_folder = Some (line, w)"
      using process_word_file_returns [of replacements env f0 destination_folder] by blast
    let ?mid = "[line, Info_Processed (completed + 1) total_files (name_of env f0)]"
    let ?wr = "case w of None \<Rightarrow> [] | Some x \<Rightarrow> [x]"
    from Cons.IH [of "completed + 1" "files_processed + 1" "log @ ?mid" "written @ ?wr"]
    obtain log' written' where
      res: "completed_loop env replacements destination_folder total_files rest
          (completed + 1) (files_processed + 1, log @ ?mid, written @ ?wr)
        = Some (files_processed + 1 + length (filter (\<lambda>f. pool_error env f = None) rest),
              (log @ ?mid) @ log', (written @ ?wr) @ written')"
      and ok: "\<forall>f \<in> set rest. pool_error env f = None \<longrightarrow>
          (\<exists>line w. process_word_file env f replacements destination_folder = Some (line, w)
             \<and> line \<in> set log' \<and> (\<forall>x. w = Some x \<longrightarrow> x \<in> set written'))"
      and bad: "\<forall>f \<in> set rest. \<forall>e. pool_error env f = Some e \<longrightarrow>
          Error_Processing_Name (name_of env f) e \<in> set log'"
      by blast
    let ?log = "?mid @ log'"
    let ?written = "?wr @ written'"
    have "completed_loop env replacements destination_folder total_files
        (f0 # rest) completed (files_processed, log, written)
      = Some (files_processed + length (filter (\<lambda>f. pool_error env f = None) (f0 # rest)),
              log @ ?log, written @ ?written)"
      using None pwf res by simp
    moreover have "\<forall>f \<in> set (f0 # rest). pool_error env f = None \<longrightarrow>
          (\<exists>line w. process_word_file env f replacements destination_folder = Some (line, w)
             \<and> line \<in> set ?log \<and> (\<forall>x. w = Some x \<longrightarrow> x \<in> set ?written))"
    proof (intro ballI impI)
      fix f assume f: "f \<in> set (f0 # rest)" and "pool_error env f = None"
      show "\<exists>line w. process_word_file env f replacements destination_folder = Some (line, w)
             \<and> line \<in> set ?log \<and> (\<forall>x. w = Some x \<longrightarrow> x \<in> set ?written)"
      proof (cases "f = f0")
        case True
        with pwf show ?thesis by auto
      next
        case False
        with f have "f \<in> set rest" by simp
        with ok \<open>pool_error env f = None\<close> obtain line' w' where
          "process_word_file env f replacements destination_folder = Some (line', w')"
          "line' \<in> set log'" "\<forall>x. w' = Some x \<longrightarrow> x \<in> set written'"
          by blast
        then show ?thesis by auto
      qed
    qed
    moreover have "\<forall>f \<in> set (f0 # rest). \<forall>e. pool_error env f = Some e \<longrightarrow>
          Error_Processing_Name (name_of env f) e \<in> set ?log"
      using None bad by auto
    ultimately show ?thesis by blast
  qed
qed

text \<open>
  The batch over a non-empty list of files, with rules whose \<open>old_text\<close> is not empty, the
  calls completing in any order: it returns; every file whose call the pool ran has in
  the log the line \<^verbatim>\<open>process_word_file\<close> logs for that file taken alone, and the file it
  writes is among the files written; a call the pool could not run is logged as an error
  under the file's name; and the last line reports, as processed, the number of calls of
  \<^verbatim>\<open>process_word_file\<close> that returned, whatever they logged.
\<close>

lemma batch_log_and_report:
  assumes "\<forall>r \<in> set replacements. fst r \<noteq> []"
    and "files \<noteq> []" and "mset completion = mset files"
  shows "\<exists>log written.
      process_directory env files completion destination_folder replacements = Some (log, written)
    \<and> last log = Info_Complete (length (filter (\<lambda>f. pool_error env f = None) files)) (length files)
    \<and> (\<forall>f \<in> set files. pool_error env f = None \<longrightarrow>
          (\<exists>line w. process_word_file env f replacements destination_folder = Some (line, w)
             \<and> line \<in> set log \<and> (\<forall>x. w = Some x \<longrightarrow> x \<in> set written)))
    \<and> (\<forall>f \<in> set files. \<forall>e. pool_error env f = Some e \<longrightarrow>
          Error_Processing_Name (name_of env f) e \<in> set log)"
proof -
  let ?ok = "\<lambda>f. pool_error env f = None"
  from completed_loop_result [OF assms(1), of env destination_folder "length files"
      completion 0 0 "[Info_Found (length files)]" "[]"]
  obtain log' written' where
    res: "completed_loop env replacements destination_folder (length files)
        completion 0 (0, [Info_Found (length files)], [])
      = Some (0 + length (filter ?ok completion), [Info_Found (length files)] @ log', [] @ written')"
    and ok: "\<forall>f \<in> set completion. pool_error env f = None \<longrightarrow>
          (\<exists>line w. process_word_file env f replacements destination_folder = Some (line, w)
             \<and> line \<in> set log' \<and> (\<forall>x. w = Some x \<longrightarrow> x \<in> set written'))"
    and bad: "\<forall>f \<in> set completion. \<forall>e. pool_error env f = Some e \<longrightarrow>
          Error_Processing_Name (name_of env f) e \<in> set log'"
    by blast
  have same_set: "set completion = set files" using assms(3) by (rule mset_eq_setD)
  have "mset (filter ?ok completion) = mset (filter ?ok files)"
    using assms(3) by simp
  then have count: "length (filter ?ok completion) = length (filter ?ok files)"
    by (rule mset_eq_length)
  let ?log = "[Info_Found (length files)] @ log'
      @ [Info_Complete (length (filter ?ok files)) (length files)]"
  have "process_directory env files completion destination_folder replacements
      = Some (?log, written')"
    using assms(2) res count by (simp add: process_directory_def Let_def)
  moreover have "last ?log = Info_Complete (length (filter ?ok files)) (length files)"
    by simp
  moreover have "\<forall>f \<in> set files. pool_error env f = None \<longrightarrow>
          (\<exists>line w. process_word_file env f replacements destination_folder = Some (line, w)
             \<and> line \<in> set ?log \<and> (\<forall>x. w = Some x \<longrightarrow> x \<in> set written'))"
  proof (intro ballI impI)
    fix f assume "f \<in> set files" and "pool_error env f = None"
    with ok same_set obtain line w where
      "process_word_file env f replacements destination_folder = Some (line, w)"
      "line \<in> set log'" "\<forall>x. w = Some x \<longrightarrow> x \<in> set written'"
      by blast
    then show "\<exists>line w. process_word_file env f replacements destination_folder = Some (line, w)
             \<and> line \<in> set ?log \<and> (\<forall>x. w = Some x \<longrightarrow> x \<in> set written')"
      by auto
  qed
  moreover have "\<forall>f \<in> set files. \<forall>e. pool_error env f = Some e \<longrightarrow>
          Error_Processing_Name (name_of env f) e \<in> set ?log"
    using bad same_set by auto
  ultimately show ?thesis by blast
qed

text \<open>
  Claim C10, at a folder with three documents of which \<open>b.docx\<close> cannot be loaded, the
  rule \<open>Draft\<close> to \<open>Final\<close>, the calls completing in the order \<open>c.docx\<close>, \<open>Draft a.docx\<close>,
  \<open>b.docx\<close>. Paths are lists of components. The error is caught in
  \<^verbatim>\<open>process_word_file\<close> and logged for \<open>b.docx\<close>, nothing is written for it, and the two
  other files are written under their derived names: so far as the claim says. But the
  call for \<open>b.docx\<close> returns normally, so \<^verbatim>\<open>future.result()\<close> does not raise, the branch of
  \<^verbatim>\<open>process_directory\<close> that leaves \<^verbatim>\<open>files_processed\<close> as it is does not run, and the
  report counts the failed file as processed: 3 of 3.
\<close>

theorem batch_report_counts_failed_file:
  "map_option fst
     (process_directory
        \<lparr>load = (\<lambda>f. if last f = ''b.docx'' then Inl (Exception ''corrupt'')
                      else Inr \<lparr>paragraphs = [[new_run ''Draft text'']], tables = [], sections = []\<rparr>),
         save = (\<lambda>f d. None),
         mutation_error = (\<lambda>rs p. None),
         name_of = last,
         path_join = (\<lambda>d n. d @ [n]),
         pool_error = (\<lambda>f. None)\<rparr>
        [[''in'', ''Draft a.docx''], [''in'', ''b.docx''], [''in'', ''c.docx'']]
        [[''in'', ''c.docx''], [''in'', ''Draft a.docx''], [''in'', ''b.docx'']]
        [''out''] [(''Draft'', ''Final'')])
   = Some [Info_Found 3,
           Info_Created [''out'', ''c.docx''], Info_Processed 1 3 ''c.docx'',
           Info_Created [''out'', ''Final a.docx''], Info_Processed 2 3 ''Draft a.docx'',
           Error_Processing_File [''in'', ''b.docx''] (Exception ''corrupt''),
           Info_Processed 3 3 ''b.docx'',
           Info_Complete 3 3]
   \<and> map_option (map fst \<circ> snd)
     (process_directory
        \<lparr>load = (\<lambda>f. if last f = ''b.docx'' then Inl (Exception ''corrupt'')
                      else Inr \<lparr>paragraphs = [[new_run ''Draft text'']], tables = [], sections = []\<rparr>),
         save = (\<lambda>f d. None),
         mutation_error = (\<lambda>rs p. None),
         name_of = last,
         path_join = (\<lambda>d n. d @ [n]),
         pool_error = (\<lambda>f. None)\<rparr>
        [[''in'', ''Draft a.docx''], [''in'', ''b.docx''], [''in'', ''c.docx'']]
        [[''in'', ''c.docx''], [''in'', ''Draft a.docx''], [''in'', ''b.docx'']]
        [''out''] [(''Draft'', ''Final'')])
   = Some [[''out'', ''c.docx''], [''out'', ''Final a.docx'']]"
  by code_simp

end
